theory Spec2Isabelle
  imports Main "HOL-Library.Monad_Syntax" "HOL-Library.Signed_Division"
begin

section \<open>Conway's Game of Life on a torus: the program of main.c\<close>

text \<open>
  The program keeps four globals: the grid \<open>board\<close>, its scratch copy \<open>board_w\<close>, the
  side length \<open>sq\<close> and the number of generations \<open>g\<close>. A grid is an array of \<open>sq\<close>
  row pointers, each row an array of \<open>sq\<close> C ints; here it is a list of rows. The length
  of a list is the extent of the allocated block, and an access beyond it (undefined
  behaviour in C) is the value \<open>None\<close>.

  C ints are modelled as \<open>int\<close>. A board of side \<open>sq\<close> occupies \<open>4 * sq * sq\<close> bytes, so
  for every board that can be allocated the sums \<open>i + 1 + sq\<close> of \<open>count_neighbors\<close>
  stay far below \<open>2 ^ 31\<close> (lemma \<open>index_sums_fit\<close> below).
\<close>

subsection \<open>Constants and cells\<close>

abbreviation (input) ALIVE :: int where "ALIVE \<equiv> 1"
abbreviation (input) DEAD :: int where "DEAD \<equiv> 0"

text \<open>The macro \<open>mod\<close> is C's \<open>%\<close>: the remainder of the division that truncates towards
  zero; a zero divisor traps.\<close>

definition c_mod :: "int \<Rightarrow> int \<Rightarrow> int option" where
  "c_mod a b = (if b = 0 then None else Some (a smod b))"

type_synonym grid = "int list list"

text \<open>\<open>b[i][j]\<close> as a read and as a write.\<close>

definition cell :: "grid \<Rightarrow> int \<Rightarrow> int \<Rightarrow> int option" where
  "cell b i j =
     (if 0 \<le> i \<and> i < int (length b) \<and> 0 \<le> j \<and> j < int (length (b ! nat i))
      then Some (b ! nat i ! nat j) else None)"

definition set_cell :: "grid \<Rightarrow> int \<Rightarrow> int \<Rightarrow> int \<Rightarrow> grid option" where
  "set_cell b i j v =
     (if 0 \<le> i \<and> i < int (length b) \<and> 0 \<le> j \<and> j < int (length (b ! nat i))
      then Some (b[nat i := (b ! nat i)[nat j := v]]) else None)"

definition kill_cell :: "int \<Rightarrow> int \<Rightarrow> grid \<Rightarrow> grid option" where
  "kill_cell i j b = set_cell b i j DEAD"

definition produce_cell :: "int \<Rightarrow> int \<Rightarrow> grid \<Rightarrow> grid option" where
  "produce_cell i j b = set_cell b i j ALIVE"

subsection \<open>Counting neighbours\<close>

text \<open>The first argument is the global \<open>sq\<close>, the second the global \<open>board_w\<close>.\<close>

definition count_neighbors :: "int \<Rightarrow> grid \<Rightarrow> int \<Rightarrow> int \<Rightarrow> int option" where
  "count_neighbors n bw i j = do {
     im \<leftarrow> c_mod (i - 1 + n) n;
     ip \<leftarrow> c_mod (i + 1 + n) n;
     jm \<leftarrow> c_mod (j - 1 + n) n;
     jp \<leftarrow> c_mod (j + 1 + n) n;
     up \<leftarrow> cell bw im j;
     down \<leftarrow> cell bw ip j;
     left \<leftarrow> cell bw i jm;
     right \<leftarrow> cell bw i jp;
     ll \<leftarrow> cell bw ip jm;
     lr \<leftarrow> cell bw ip jp;
     ul \<leftarrow> cell bw im jm;
     ur \<leftarrow> cell bw im jp;
     Some (up + down + left + right + ll + lr + ul + ur)
   }"

subsection \<open>Copying the board\<close>

text \<open>\<open>memcpy(dst[i], src[i], sq*sizeof(int))\<close>: the first \<open>n\<close> ints of the row.\<close>

definition memcpy_row :: "int list \<Rightarrow> int list \<Rightarrow> int \<Rightarrow> int list option" where
  "memcpy_row d s n =
     (if 0 \<le> n \<and> nat n \<le> length s \<and> nat n \<le> length d
      then Some (take (nat n) s @ drop (nat n) d) else None)"

function copy_rows :: "int \<Rightarrow> grid \<Rightarrow> int \<Rightarrow> grid \<Rightarrow> grid option" where
  "copy_rows n src i dst =
     (if i < n then
        (if 0 \<le> i \<and> i < int (length src) \<and> i < int (length dst) then do {
           r \<leftarrow> memcpy_row (dst ! nat i) (src ! nat i) n;
           copy_rows n src (i + 1) (dst[nat i := r])
         } else None)
      else Some dst)"
  by pat_completeness auto
termination
  by (relation "measure (\<lambda>(n, src, i, dst). nat (n - i))") auto

definition copy_board :: "int \<Rightarrow> grid \<Rightarrow> grid \<Rightarrow> grid option" where
  "copy_board n src dst = copy_rows n src 0 dst"

subsection \<open>One generation\<close>

text \<open>The body of the two inner loops of \<open>loop_board\<close> at the cell \<open>(i, j)\<close>: the count
  is read from \<open>board_w\<close>, the write goes to \<open>board\<close>. The third branch is the source's
  \<open>continue\<close>; when no branch applies nothing is written either.\<close>

definition update_cell :: "int \<Rightarrow> grid \<Rightarrow> int \<Rightarrow> int \<Rightarrow> grid \<Rightarrow> grid option" where
  "update_cell n bw i j b = do {
     k \<leftarrow> count_neighbors n bw i j;
     if k < 2 then kill_cell i j b
     else do {
       c \<leftarrow> cell bw i j;
       if c = DEAD \<and> k = 3 then produce_cell i j b
       else if k < 4 \<and> k > 1 then Some b
       else if k > 3 then kill_cell i j b
       else Some b
     }
   }"

function loop_cols :: "int \<Rightarrow> grid \<Rightarrow> int \<Rightarrow> int \<Rightarrow> grid \<Rightarrow> grid option" where
  "loop_cols n bw i j b =
     (if j < n then do {
        b' \<leftarrow> update_cell n bw i j b;
        loop_cols n bw i (j + 1) b'
      } else Some b)"
  by pat_completeness auto
termination
  by (relation "measure (\<lambda>(n, bw, i, j, b). nat (n - j))") auto

function loop_rows :: "int \<Rightarrow> grid \<Rightarrow> int \<Rightarrow> grid \<Rightarrow> grid option" where
  "loop_rows n bw i b =
     (if i < n then do {
        b' \<leftarrow> loop_cols n bw i 0 b;
        loop_rows n bw (i + 1) b'
      } else Some b)"
  by pat_completeness auto
termination
  by (relation "measure (\<lambda>(n, bw, i, b). nat (n - i))") auto

text \<open>\<open>copy_board(board, board_w)\<close> followed by the two loops over the cells: the pair
  returned is the new \<open>(board, board_w)\<close>.\<close>

definition step :: "int \<Rightarrow> grid \<times> grid \<Rightarrow> (grid \<times> grid) option" where
  "step n p = do {
     bw \<leftarrow> copy_board n (fst p) (snd p);
     b \<leftarrow> loop_rows n bw 0 (fst p);
     Some (b, bw)
   }"

subsection \<open>The program state: globals, the file system, what was output\<close>

text \<open>\<open>files\<close> maps a file name to its content, \<open>writable\<close> says whether \<open>fopen\<close> for
  writing succeeds on a name, and \<open>trace\<close> records, in order, what the program printed
  to the standard output and what it wrote to files.\<close>

datatype event = Printed string | Wrote string string

record state =
  board :: grid
  board_w :: grid
  sq :: int
  g :: int
  files :: "string \<rightharpoonup> string"
  writable :: "string \<Rightarrow> bool"
  trace :: "event list"

subsection \<open>Writing the board\<close>

text \<open>The local \<open>symbol\<close> has no initial value and keeps its last value when a cell is
  neither \<open>ALIVE\<close> nor \<open>DEAD\<close>; \<open>None\<close> is the uninitialised variable, and \<open>fputc\<close> of it
  is an error. The pair threaded through the loops is \<open>symbol\<close> and the characters put
  so far.\<close>

function write_cols ::
  "int \<Rightarrow> grid \<Rightarrow> int \<Rightarrow> int \<Rightarrow> char option \<times> string \<Rightarrow> (char option \<times> string) option" where
  "write_cols n b i j st =
     (if j < n then do {
        c \<leftarrow> cell b i j;
        let symbol = (if c = ALIVE then Some CHR ''#''
                      else if c = DEAD then Some CHR ''-'' else fst st);
        ch \<leftarrow> symbol;
        write_cols n b i (j + 1) (symbol, snd st @ [ch])
      } else Some st)"
  by pat_completeness auto
termination
  by (relation "measure (\<lambda>(n, b, i, j, st). nat (n - j))") auto

function write_rows ::
  "int \<Rightarrow> grid \<Rightarrow> int \<Rightarrow> char option \<times> string \<Rightarrow> (char option \<times> string) option" where
  "write_rows n b i st =
     (if i < n then do {
        st' \<leftarrow> write_cols n b i 0 st;
        write_rows n b (i + 1) (fst st', snd st' @ [CHR 0x0A])
      } else Some st)"
  by pat_completeness auto
termination
  by (relation "measure (\<lambda>(n, b, i, st). nat (n - i))") auto

definition write_board :: "string \<Rightarrow> state \<Rightarrow> state option" where
  "write_board fname s =
     (if \<not> writable s fname
      then Some (s\<lparr>trace := trace s @ [Printed (''Error opening '' @ fname @ '' for writing.'')]\<rparr>)
      else do {
        st \<leftarrow> write_rows (sq s) (board s) 0 (None, []);
        Some (s\<lparr>files := (files s)(fname \<mapsto> snd st), trace := trace s @ [Wrote fname (snd st)]\<rparr>)
      })"

subsection \<open>Reading the board\<close>

text \<open>\<open>fgetc\<close> is stored into a \<open>char\<close> before the comparison with \<open>EOF\<close>; with the signed
  \<open>char\<close> of the usual x86 compilers the loop ends at the end of the file and also at
  a byte \<open>0xFF\<close>. The column counter \<open>x\<close> is the first index of the write and the
  line counter \<open>y\<close> the second. A file that cannot be opened gives a null stream, and
  reading it is an error.\<close>

fun read_chars :: "string \<Rightarrow> int \<Rightarrow> int \<Rightarrow> grid \<Rightarrow> grid option" where
  "read_chars [] x y b = Some b"
| "read_chars (ch # cs) x y b =
     (if ch = CHR 0xFF then Some b
      else if ch = CHR 0x0A then read_chars cs 0 (y + 1) b
      else if ch = CHR ''-'' then do { b' \<leftarrow> set_cell b x y DEAD; read_chars cs (x + 1) y b' }
      else if ch = CHR ''#'' then do { b' \<leftarrow> set_cell b x y ALIVE; read_chars cs (x + 1) y b' }
      else read_chars cs (x + 1) y b)"

definition read_board :: "string \<Rightarrow> state \<Rightarrow> state option" where
  "read_board fname s =
     (case files s fname of
        None \<Rightarrow> None
      | Some cs \<Rightarrow> do { b \<leftarrow> read_chars cs 0 0 (board s); Some (s\<lparr>board := b\<rparr>) })"

subsection \<open>Allocation\<close>

text \<open>\<open>create_board\<close> allocates \<open>sq\<close> rows of \<open>sq\<close> zeroed ints for each grid; with
  \<open>sq \<le> 0\<close> no cell is allocated. A failing \<open>malloc\<close> for a positive \<open>sq\<close> is outside
  the model. \<open>free_board\<close> releases every row, after which no cell is accessible.\<close>

definition create_board :: "state \<Rightarrow> state" where
  "create_board s =
     s\<lparr>board := replicate (nat (sq s)) (replicate (nat (sq s)) 0),
       board_w := replicate (nat (sq s)) (replicate (nat (sq s)) 0)\<rparr>"

definition free_board :: "grid \<Rightarrow> grid" where
  "free_board b = []"

subsection \<open>The generations loop\<close>

text \<open>The loop over \<open>gcounter\<close>; its bound is the global \<open>g\<close>, which nothing in the loop
  assigns, passed as the first argument. \<open>sleep(.75)\<close> converts its argument to the
  unsigned integer 0 and has no effect on the state.\<close>

function loop_gens :: "int \<Rightarrow> int \<Rightarrow> state \<Rightarrow> state option" where
  "loop_gens gmax gcounter s =
     (if gcounter < gmax then do {
        p \<leftarrow> step (sq s) (board s, board_w s);
        s' \<leftarrow> write_board ''board'' (s\<lparr>board := fst p, board_w := snd p\<rparr>);
        loop_gens gmax (gcounter + 1) s'
      } else Some s)"
  by pat_completeness auto
termination
  by (relation "measure (\<lambda>(gmax, gcounter, s). nat (gmax - gcounter))") auto

definition loop_board :: "state \<Rightarrow> state option" where
  "loop_board s = loop_gens (g s) 0 s"

subsection \<open>The command line\<close>

text \<open>\<open>atoi\<close> of the C library: leading white space, an optional sign, then the longest
  run of decimal digits; 0 when there is none. \<open>decimal\<close> is the number the text
  denotes. The result of \<open>atoi\<close> is a C int, stored in the 32-bit globals \<open>sq\<close> and \<open>g\<close>:
  when the number cannot be represented in an int the behaviour is undefined, which
  is the value \<open>None\<close>.\<close>

definition isspace :: "char \<Rightarrow> bool" where
  "isspace c = (c \<in> set [CHR '' '', CHR 0x09, CHR 0x0A, CHR 0x0B, CHR 0x0C, CHR 0x0D])"

definition isdigit :: "char \<Rightarrow> bool" where
  "isdigit c = (48 \<le> (of_char c :: nat) \<and> (of_char c :: nat) \<le> 57)"

fun digits :: "int \<Rightarrow> string \<Rightarrow> int" where
  "digits acc [] = acc"
| "digits acc (c # cs) =
     (if isdigit c then digits (10 * acc + (int (of_char c) - 48)) cs else acc)"

definition decimal :: "string \<Rightarrow> int" where
  "decimal s =
     (case dropWhile isspace s of
        [] \<Rightarrow> 0
      | c # cs \<Rightarrow>
          if c = CHR ''-'' then - digits 0 cs
          else if c = CHR ''+'' then digits 0 cs
          else digits 0 (c # cs))"

definition INT_MIN :: int where
  "INT_MIN = - (2 ^ 31)"

definition INT_MAX :: int where
  "INT_MAX = 2 ^ 31 - 1"

definition atoi :: "string \<Rightarrow> int option" where
  "atoi s = (if INT_MIN \<le> decimal s \<and> decimal s \<le> INT_MAX then Some (decimal s) else None)"

definition usage :: string where
  "usage = ''Usage:'' @ [CHR 0x0A, CHR 0x09] @ '' ./main.o (int)SQUARE (int)GENERATIONS'' @ [CHR 0x0A]"

text \<open>\<open>argv\<close> is the whole argument vector, the program's name first, so \<open>argc\<close> is its
  length. The result is the exit status and the final state.\<close>

definition main :: "string list \<Rightarrow> state \<Rightarrow> (int \<times> state) option" where
  "main argv s =
     (if length argv = 3 then do {
        n \<leftarrow> atoi (argv ! 1);
        gens \<leftarrow> atoi (argv ! 2);
        let s1 = create_board (s\<lparr>sq := n, g := gens\<rparr>);
        s2 \<leftarrow> read_board ''board'' s1;
        s3 \<leftarrow> loop_board s2;
        s4 \<leftarrow> write_board ''board'' s3;
        Some (0, s4\<lparr>board := free_board (board s4), board_w := free_board (board_w s4)\<rparr>)
      } else Some (1, s\<lparr>trace := trace s @ [Printed usage]\<rparr>))"

section \<open>The specification's notions\<close>

text \<open>A grid of side \<open>n\<close> is well formed when it has \<open>n\<close> rows of \<open>n\<close> cells (none at all
  when \<open>n \<le> 0\<close>, as \<open>create_board\<close> leaves it), and binary when every cell is \<open>ALIVE\<close>
  or \<open>DEAD\<close>.\<close>

definition wf_grid :: "int \<Rightarrow> grid \<Rightarrow> bool" where
  "wf_grid n b = (length b = nat n \<and> (\<forall>r \<in> set b. length r = nat n))"

definition binary :: "grid \<Rightarrow> bool" where
  "binary b = (\<forall>r \<in> set b. \<forall>c \<in> set r. c = ALIVE \<or> c = DEAD)"

text \<open>The grid of side \<open>n\<close> whose cell \<open>(i, j)\<close> is \<open>f i j\<close>.\<close>

definition mk_grid :: "int \<Rightarrow> (int \<Rightarrow> int \<Rightarrow> int) \<Rightarrow> grid" where
  "mk_grid n f = map (\<lambda>i. map (\<lambda>j. f i j) [0..n - 1]) [0..n - 1]"

text \<open>The eight Moore neighbours on the torus: both coordinates wrapped modulo \<open>n\<close>
  (the mathematical \<open>mod\<close>, whose result lies in \<open>[0, n)\<close>).\<close>

definition moore :: "(int \<times> int) list" where
  "moore = [(-1, -1), (-1, 0), (-1, 1), (0, -1), (0, 1), (1, -1), (1, 0), (1, 1)]"

definition torus_count :: "int \<Rightarrow> grid \<Rightarrow> int \<Rightarrow> int \<Rightarrow> int" where
  "torus_count n b i j =
     (\<Sum>d \<leftarrow> moore. b ! nat ((i + fst d) mod n) ! nat ((j + snd d) mod n))"

text \<open>The ordered rules of the specification, on the cell's state \<open>c\<close> and its count
  \<open>k\<close>.\<close>

definition rule :: "int \<Rightarrow> int \<Rightarrow> int" where
  "rule c k =
     (if k < 2 then DEAD
      else if c = DEAD \<and> k = 3 then ALIVE
      else if k = 2 \<or> k = 3 then c
      else DEAD)"

text \<open>The simultaneous update: every cell of the snapshot goes through the rule,
  independently of the others.\<close>

definition next_gen :: "int \<Rightarrow> grid \<Rightarrow> grid" where
  "next_gen n b = mk_grid n (\<lambda>i j. rule (b ! nat i ! nat j) (torus_count n b i j))"

text \<open>The cell updates applied in an arbitrary order of visit, given as the list of
  the cells visited, and the step that uses it in place of the two loops.\<close>

fun visit :: "int \<Rightarrow> grid \<Rightarrow> (int \<times> int) list \<Rightarrow> grid \<Rightarrow> grid option" where
  "visit n bw [] b = Some b"
| "visit n bw (c # cs) b = do { b' \<leftarrow> update_cell n bw (fst c) (snd c) b; visit n bw cs b' }"

definition step_in_order :: "int \<Rightarrow> (int \<times> int) list \<Rightarrow> grid \<times> grid \<Rightarrow> (grid \<times> grid) option" where
  "step_in_order n cs p = do {
     bw \<leftarrow> copy_board n (fst p) (snd p);
     b \<leftarrow> visit n bw cs (fst p);
     Some (b, bw)
   }"

text \<open>The file format of a binary grid: one line per row, \<open>#\<close> for \<open>ALIVE\<close> and \<open>-\<close>
  for \<open>DEAD\<close>.\<close>

definition render :: "grid \<Rightarrow> string" where
  "render b = concat (map (\<lambda>r. map (\<lambda>c. if c = ALIVE then CHR ''#'' else CHR ''-'') r @ [CHR 0x0A]) b)"

text \<open>The grid whose only \<open>ALIVE\<close> cell is \<open>(0, 0)\<close>.\<close>

definition lone_cell :: "int \<Rightarrow> grid" where
  "lone_cell n = mk_grid n (\<lambda>r c. if r = 0 \<and> c = 0 then ALIVE else DEAD)"

text \<open>The state in which \<open>main\<close> starts: the globals are zero, the board file holds
  \<open>cs\<close> and can be written, nothing has been output.\<close>

definition start :: "string \<Rightarrow> state" where
  "start cs = \<lparr>board = [], board_w = [], sq = 0, g = 0, files = [''board'' \<mapsto> cs],
     writable = (\<lambda>f. True), trace = []\<rparr>"


text \<open>A 2 by 2 block of \<open>ALIVE\<close> cells with its upper left corner at \<open>(r, c)\<close>, wrapped
  around the edges of the torus, on an otherwise \<open>DEAD\<close> grid.\<close>

definition block :: "int \<Rightarrow> int \<Rightarrow> int \<Rightarrow> grid" where
  "block n r c =
     mk_grid n (\<lambda>i j. if (i = r \<or> i = (r + 1) mod n) \<and> (j = c \<or> j = (c + 1) mod n)
                      then ALIVE else DEAD)"

section \<open>Auxiliary notions for the proofs\<close>

text \<open>\<open>put b i j v\<close> is the grid after \<open>b[i][j] = v\<close>; \<open>new_cell n bw i j cur\<close> is the
  value that the loop body leaves in the cell \<open>(i, j)\<close> of the board when that cell
  held \<open>cur\<close>; \<open>in_grid\<close> are the coordinates of a grid of side \<open>n\<close>, and
  \<open>row_major n i\<close> lists the cells in the order of the two loops, from row \<open>i\<close> on.\<close>

definition put :: "grid \<Rightarrow> int \<Rightarrow> int \<Rightarrow> int \<Rightarrow> grid" where
  "put b i j v = b[nat i := (b ! nat i)[nat j := v]]"

definition new_cell :: "int \<Rightarrow> grid \<Rightarrow> int \<Rightarrow> int \<Rightarrow> int \<Rightarrow> int" where
  "new_cell n bw i j cur =
     (if torus_count n bw i j < 2 then DEAD
      else if bw ! nat i ! nat j = DEAD \<and> torus_count n bw i j = 3 then ALIVE
      else if torus_count n bw i j < 4 \<and> torus_count n bw i j > 1 then cur
      else DEAD)"

definition in_grid :: "int \<Rightarrow> int \<times> int \<Rightarrow> bool" where
  "in_grid n c = (0 \<le> fst c \<and> fst c < n \<and> 0 \<le> snd c \<and> snd c < n)"

definition row_major :: "int \<Rightarrow> int \<Rightarrow> (int \<times> int) list" where
  "row_major n i = concat (map (\<lambda>i. map (Pair i) [0..n - 1]) [i..n - 1])"

text \<open>What \<open>d\<close> generations starting from the grid \<open>b\<close> write to the board file, one
  write after each generation, and what \<open>write_board\<close> prints when the board file
  cannot be opened.\<close>

fun gens_trace :: "nat \<Rightarrow> int \<Rightarrow> grid \<Rightarrow> event list" where
  "gens_trace 0 n b = []"
| "gens_trace (Suc d) n b = Wrote ''board'' (render (next_gen n b)) # gens_trace d n (next_gen n b)"

definition open_error :: event where
  "open_error = Printed ''Error opening board for writing.''"

section \<open>Properties of the grid operations\<close>

declare copy_rows.simps [simp del] loop_cols.simps [simp del] loop_rows.simps [simp del]
  write_cols.simps [simp del] write_rows.simps [simp del] loop_gens.simps [simp del]


subsection \<open>The index sums of \<open>count_neighbors\<close> fit a 32-bit int\<close>

lemma index_sums_fit:
  fixes i n :: int
  assumes "0 \<le> i" "i < n" "n < 2 ^ 30"
  shows "0 \<le> i - 1 + n \<and> i - 1 + n < 2 ^ 31 \<and> 0 \<le> i + 1 + n \<and> i + 1 + n < 2 ^ 31"
  using assms by simp

subsection \<open>Wrapped indices and counts\<close>

lemma c_mod_nonneg: "0 < n \<Longrightarrow> 0 \<le> a \<Longrightarrow> c_mod a n = Some (a mod n)"
  by (simp add: c_mod_def smod_int_alt_def sgn_if)

lemma wrap_prev: "0 < n \<Longrightarrow> 0 \<le> i \<Longrightarrow> i < n \<Longrightarrow> c_mod (i - 1 + n) n = Some ((i - 1) mod n)"
  using c_mod_nonneg [of n "i - 1 + n"] by simp

lemma wrap_next: "0 < n \<Longrightarrow> 0 \<le> i \<Longrightarrow> i < n \<Longrightarrow> c_mod (i + 1 + n) n = Some ((i + 1) mod n)"
  using c_mod_nonneg [of n "i + 1 + n"] by simp

lemma mod_prev_if: "0 \<le> i \<Longrightarrow> i < n \<Longrightarrow> (i - 1) mod n = (if i = 0 then n - 1 else i - 1)" for i n :: int
  by (auto simp: mod_pos_pos_trivial zmod_minus1)

lemma mod_next_if: "0 \<le> i \<Longrightarrow> i < n \<Longrightarrow> (i + 1) mod n = (if i = n - 1 then 0 else i + 1)" for i n :: int
  by (auto simp: mod_pos_pos_trivial)

lemma cell_wf:
  "wf_grid n b \<Longrightarrow> 0 \<le> i \<Longrightarrow> i < n \<Longrightarrow> 0 \<le> j \<Longrightarrow> j < n \<Longrightarrow> cell b i j = Some (b ! nat i ! nat j)"
  by (auto simp: cell_def wf_grid_def)

lemma count_neighbors_wf:
  assumes "wf_grid n bw" "0 \<le> i" "i < n" "0 \<le> j" "j < n"
  shows "count_neighbors n bw i j = Some (torus_count n bw i j)"
proof -
  have n: "0 < n" using assms by simp
  have r: "0 \<le> (i - 1) mod n" "(i - 1) mod n < n" "0 \<le> (i + 1) mod n" "(i + 1) mod n < n"
          "0 \<le> (j - 1) mod n" "(j - 1) mod n < n" "0 \<le> (j + 1) mod n" "(j + 1) mod n < n"
    using n by simp_all
  show ?thesis
    using assms n r
    by (simp add: count_neighbors_def wrap_prev wrap_next cell_wf torus_count_def moore_def)
qed

lemma put_same: "put b i j (b ! nat i ! nat j) = b"
  by (simp add: put_def)

lemma wf_grid_put: "wf_grid n b \<Longrightarrow> wf_grid n (put b i j v)"
proof (cases "nat i < length b")
  case True
  assume w: "wf_grid n b"
  from True have "b ! nat i \<in> set b" by simp
  with w have "length ((b ! nat i)[nat j := v]) = nat n" by (simp add: wf_grid_def)
  with w show ?thesis
    unfolding wf_grid_def put_def
    by (auto dest: set_update_subset_insert [THEN subsetD])
next
  case False
  assume "wf_grid n b"
  with False show ?thesis by (simp add: put_def list_update_beyond)
qed

lemma nth_put:
  assumes "wf_grid n b" "0 \<le> i" "i < n" "0 \<le> j" "j < n" "0 \<le> i'" "i' < n" "0 \<le> j'" "j' < n"
  shows "put b i j v ! nat i' ! nat j' = (if i' = i \<and> j' = j then v else b ! nat i' ! nat j')"
proof -
  have "nat i < length b" "nat i' < length b" using assms by (auto simp: wf_grid_def)
  moreover have "nat j < length (b ! nat i)" using assms by (auto simp: wf_grid_def)
  ultimately show ?thesis using assms
    by (auto simp: put_def nth_list_update)
qed

lemma set_cell_wf:
  "wf_grid n b \<Longrightarrow> 0 \<le> i \<Longrightarrow> i < n \<Longrightarrow> 0 \<le> j \<Longrightarrow> j < n \<Longrightarrow> set_cell b i j v = Some (put b i j v)"
  by (auto simp: set_cell_def put_def wf_grid_def)

lemma update_cell_wf:
  assumes "wf_grid n bw" "wf_grid n b" "0 \<le> i" "i < n" "0 \<le> j" "j < n"
  shows "update_cell n bw i j b = Some (put b i j (new_cell n bw i j (b ! nat i ! nat j)))"
  using assms
  by (simp add: update_cell_def count_neighbors_wf cell_wf kill_cell_def produce_cell_def
      set_cell_wf new_cell_def put_same)

lemma new_cell_idem: "new_cell n bw i j (new_cell n bw i j v) = new_cell n bw i j v"
  by (simp add: new_cell_def)

lemma visit_wf:
  assumes "wf_grid n bw"
  shows "wf_grid n b \<Longrightarrow> \<forall>c \<in> set cs. in_grid n c \<Longrightarrow>
    \<exists>b'. visit n bw cs b = Some b' \<and> wf_grid n b' \<and>
      (\<forall>i j. in_grid n (i, j) \<longrightarrow>
         b' ! nat i ! nat j =
           (if (i, j) \<in> set cs then new_cell n bw i j (b ! nat i ! nat j) else b ! nat i ! nat j))"
proof (induction cs arbitrary: b)
  case Nil
  then show ?case by simp
next
  case (Cons c cs)
  obtain i j where c: "c = (i, j)" by (cases c)
  have ij: "0 \<le> i" "i < n" "0 \<le> j" "j < n" using Cons.prems c by (auto simp: in_grid_def)
  let ?b1 = "put b i j (new_cell n bw i j (b ! nat i ! nat j))"
  have u: "update_cell n bw i j b = Some ?b1"
    using update_cell_wf [OF assms Cons.prems(1) ij] .
  have w1: "wf_grid n ?b1" using Cons.prems(1) by (rule wf_grid_put)
  from Cons.IH [OF w1] Cons.prems(2)
  obtain b' where b': "visit n bw cs ?b1 = Some b'" "wf_grid n b'"
    and cells: "\<And>i' j'. in_grid n (i', j') \<Longrightarrow> b' ! nat i' ! nat j' =
       (if (i', j') \<in> set cs then new_cell n bw i' j' (?b1 ! nat i' ! nat j') else ?b1 ! nat i' ! nat j')"
    by auto
  have "visit n bw (c # cs) b = Some b'" using u b' c by simp
  moreover have "b' ! nat i' ! nat j' =
      (if (i', j') \<in> set (c # cs) then new_cell n bw i' j' (b ! nat i' ! nat j') else b ! nat i' ! nat j')"
    if "in_grid n (i', j')" for i' j'
  proof -
    have r: "0 \<le> i'" "i' < n" "0 \<le> j'" "j' < n" using that by (auto simp: in_grid_def)
    show ?thesis
      unfolding cells [OF that] nth_put [OF Cons.prems(1) ij r]
      by (auto simp: c new_cell_idem)
  qed
  ultimately show ?case using b'(2) by blast
qed

lemma visit_append: "visit n bw (xs @ ys) b = visit n bw xs b \<bind> visit n bw ys"
  by (induction xs arbitrary: b) (auto split: bind_splits)

lemma loop_cols_visit: "loop_cols n bw i j b = visit n bw (map (Pair i) [j..n - 1]) b"
proof (induction n bw i j b rule: loop_cols.induct)
  case (1 n bw i j b)
  show ?case
  proof (cases "j < n")
    case True
    then have "[j..n - 1] = j # [j + 1..n - 1]" by (simp add: upto_rec1)
    with True 1 show ?thesis
      by (subst loop_cols.simps) (auto intro!: Option.bind_cong)
  next
    case False
    then show ?thesis by (subst loop_cols.simps) simp
  qed
qed

lemma loop_rows_visit: "loop_rows n bw i b = visit n bw (row_major n i) b"
proof (induction n bw i b rule: loop_rows.induct)
  case (1 n bw i b)
  show ?case
  proof (cases "i < n")
    case True
    then have "[i..n - 1] = i # [i + 1..n - 1]" by (simp add: upto_rec1)
    then have "row_major n i = map (Pair i) [0..n - 1] @ row_major n (i + 1)"
      by (simp add: row_major_def)
    with True 1 show ?thesis
      by (subst loop_rows.simps) (auto simp: visit_append loop_cols_visit intro!: Option.bind_cong)
  next
    case False
    then show ?thesis by (subst loop_rows.simps) (simp add: row_major_def)
  qed
qed

lemma set_row_major: "set (row_major n 0) = {c. in_grid n c}"
  by (auto simp: row_major_def in_grid_def)

lemma mk_grid_nth:
  "0 \<le> i \<Longrightarrow> i < n \<Longrightarrow> 0 \<le> j \<Longrightarrow> j < n \<Longrightarrow> mk_grid n f ! nat i ! nat j = f i j"
  by (simp add: mk_grid_def)

lemma wf_mk_grid: "wf_grid n (mk_grid n f)"
  by (auto simp: wf_grid_def mk_grid_def)

lemma grid_ext:
  assumes "wf_grid n a" "wf_grid n b"
    and "\<And>i j. 0 \<le> i \<Longrightarrow> i < n \<Longrightarrow> 0 \<le> j \<Longrightarrow> j < n \<Longrightarrow> a ! nat i ! nat j = b ! nat i ! nat j"
  shows "a = b"
proof (rule nth_equalityI)
  show "length a = length b" using assms(1,2) by (simp add: wf_grid_def)
next
  fix k assume k: "k < length a"
  then have kn: "int k < n" using assms(1) by (simp add: wf_grid_def)
  have la: "int (length (a ! k)) = n" using assms(1) k by (simp add: wf_grid_def)
  have lb: "int (length (b ! k)) = n" using assms(1,2) k by (simp add: wf_grid_def)
  show "a ! k = b ! k"
  proof (rule nth_equalityI)
    show "length (a ! k) = length (b ! k)" using la lb by simp
  next
    fix m assume "m < length (a ! k)"
    then have "int m < n" using la by simp
    with kn assms(3) [of "int k" "int m"] show "a ! k ! m = b ! k ! m" by simp
  qed
qed

lemma new_cell_rule: "new_cell n b i j (b ! nat i ! nat j) = rule (b ! nat i ! nat j) (torus_count n b i j)"
  by (auto simp: new_cell_def rule_def)

lemma copy_rows_wf:
  "wf_grid n src \<Longrightarrow> wf_grid n dst \<Longrightarrow> 0 \<le> i \<Longrightarrow> i \<le> n \<Longrightarrow>
   copy_rows n src i dst = Some (take (nat i) dst @ drop (nat i) src)"
proof (induction n src i dst rule: copy_rows.induct)
  case (1 n src i dst)
  show ?case
  proof (cases "i < n")
    case False
    with 1 have "i = n" by simp
    moreover have "nat n = length dst" "nat n = length src" using 1 by (auto simp: wf_grid_def)
    ultimately show ?thesis by (subst copy_rows.simps) simp
  next
    case True
    have ls: "nat i < length src" and ld: "nat i < length dst"
      using True 1 by (auto simp: wf_grid_def)
    have rs: "int (length (src ! nat i)) = n" and rd: "int (length (dst ! nat i)) = n"
      using ls ld 1 by (auto simp: wf_grid_def)
    have m: "memcpy_row (dst ! nat i) (src ! nat i) n = Some (src ! nat i)"
      using rs rd by (auto simp: memcpy_row_def)
    have w: "wf_grid n (dst[nat i := src ! nat i])"
      using 1(3) rs unfolding wf_grid_def
      by (auto dest: set_update_subset_insert [THEN subsetD])
    have li: "0 \<le> i \<and> i < int (length src) \<and> i < int (length dst)"
      using True 1 by (simp add: wf_grid_def)
    have "copy_rows n src (i + 1) (dst[nat i := src ! nat i]) =
        Some (take (nat (i + 1)) (dst[nat i := src ! nat i]) @ drop (nat (i + 1)) src)"
      using 1(1) [OF True li m 1(2) w] True 1(4) by simp
    moreover have "nat (i + 1) = Suc (nat i)" using 1(4) by simp
    ultimately show ?thesis
      using True li ls ld m
      by (subst copy_rows.simps)
         (simp add: take_Suc_conv_app_nth Cons_nth_drop_Suc)
  qed
qed

lemma copy_board_wf:
  assumes "wf_grid n src" "wf_grid n dst"
  shows "copy_board n src dst = Some src"
proof (cases "0 \<le> n")
  case True
  with assms copy_rows_wf [of n src dst 0] show ?thesis by (simp add: copy_board_def)
next
  case False
  with assms have "src = []" "dst = []" by (simp_all add: wf_grid_def)
  with False show ?thesis by (simp add: copy_board_def copy_rows.simps)
qed

lemma step_in_order_wf:
  assumes "wf_grid n b" "wf_grid n bw" "set cs = {c. in_grid n c}"
  shows "step_in_order n cs (b, bw) = Some (next_gen n b, b)"
proof -
  have "\<forall>c \<in> set cs. in_grid n c" using assms(3) by simp
  from visit_wf [OF assms(1) assms(1) this]
  obtain b' where b': "visit n b cs b = Some b'" "wf_grid n b'"
    and cells: "\<And>i j. in_grid n (i, j) \<Longrightarrow> b' ! nat i ! nat j =
       (if (i, j) \<in> set cs then new_cell n b i j (b ! nat i ! nat j) else b ! nat i ! nat j)"
    by auto
  have "b' = next_gen n b"
  proof (rule grid_ext [OF b'(2)])
    show "wf_grid n (next_gen n b)" unfolding next_gen_def by (rule wf_mk_grid)
  next
    fix i j assume r: "0 \<le> i" "i < n" "0 \<le> j" "j < n"
    then have "in_grid n (i, j)" by (simp add: in_grid_def)
    then show "b' ! nat i ! nat j = next_gen n b ! nat i ! nat j"
      using cells [of i j] assms(3) r by (simp add: next_gen_def mk_grid_nth new_cell_rule)
  qed
  with b'(1) show ?thesis
    by (simp add: step_in_order_def copy_board_wf [OF assms(1,2)])
qed

lemma step_as_visit: "step n p = step_in_order n (row_major n 0) p"
  by (simp add: step_def step_in_order_def loop_rows_visit)

lemma step_wf: "wf_grid n b \<Longrightarrow> wf_grid n bw \<Longrightarrow> step n (b, bw) = Some (next_gen n b, b)"
  by (simp add: step_as_visit step_in_order_wf set_row_major)

lemma wf_next_gen: "wf_grid n (next_gen n b)"
  by (simp add: next_gen_def wf_mk_grid)

subsection \<open>The lone cell is counted by all its neighbours\<close>

lemma elem_le_sum_list:
  fixes f :: "'a \<Rightarrow> int"
  shows "x \<in> set xs \<Longrightarrow> \<forall>y \<in> set xs. 0 \<le> f y \<Longrightarrow> f x \<le> sum_list (map f xs)"
proof (induction xs)
  case Nil
  then show ?case by simp
next
  case (Cons a xs)
  have "0 \<le> sum_list (map f xs)" using Cons.prems(2) by (intro sum_list_nonneg) auto
  moreover have "0 \<le> f a" using Cons.prems(2) by simp
  ultimately show ?case using Cons by auto
qed

lemma moore_opposite: "d \<in> set moore \<Longrightarrow> (- fst d, - snd d) \<in> set moore"
  unfolding moore_def by (cases d) (simp, elim disjE conjE, simp_all)

lemma lone_cell_nth:
  "0 < n \<Longrightarrow> lone_cell n ! nat (a mod n) ! nat (b mod n) = (if a mod n = 0 \<and> b mod n = 0 then 1 else 0)"
  by (simp add: lone_cell_def mk_grid_nth)

lemma lone_cell_counted:
  assumes "0 < n" "d \<in> set moore"
  shows "1 \<le> torus_count n (lone_cell n) (fst d mod n) (snd d mod n)"
proof -
  let ?f = "\<lambda>e. lone_cell n ! nat ((fst d mod n + fst e) mod n) ! nat ((snd d mod n + snd e) mod n)"
  have "?f (- fst d, - snd d) \<le> sum_list (map ?f moore)"
    using moore_opposite [OF assms(2)]
    by (rule elem_le_sum_list) (simp add: lone_cell_nth assms(1))
  moreover have "?f (- fst d, - snd d) = 1"
    using lone_cell_nth [OF assms(1), of 0 0] by (simp add: mod_simps)
  ultimately show ?thesis by (simp add: torus_count_def)
qed

subsection \<open>Cells stay binary\<close>

lemma binary_put: "binary b \<Longrightarrow> v = ALIVE \<or> v = DEAD \<Longrightarrow> binary (put b i j v)"
proof -
  assume b: "binary b" and v: "v = ALIVE \<or> v = DEAD"
  show ?thesis
    unfolding binary_def put_def
  proof (intro ballI)
    fix r c assume r: "r \<in> set (b[nat i := (b ! nat i)[nat j := v]])" and c: "c \<in> set r"
    from r have "r = (b ! nat i)[nat j := v] \<and> nat i < length b \<or> r \<in> set b"
      by (cases "nat i < length b") (auto dest: set_update_subset_insert [THEN subsetD] simp: list_update_beyond)
    then show "c = ALIVE \<or> c = DEAD"
    proof
      assume a: "r = (b ! nat i)[nat j := v] \<and> nat i < length b"
      then have "c = v \<or> c \<in> set (b ! nat i)"
        using c set_update_subset_insert [of "b ! nat i" "nat j" v] by auto
      moreover have "b ! nat i \<in> set b" using a by simp
      ultimately show ?thesis using v b by (auto simp: binary_def)
    next
      assume "r \<in> set b"
      with c b show ?thesis by (auto simp: binary_def)
    qed
  qed
qed

lemma set_cell_Some: "set_cell b i j v = Some b' \<Longrightarrow> b' = put b i j v"
  by (auto simp: set_cell_def put_def split: if_splits)

lemma binary_cell: "binary b \<Longrightarrow> cell b i j = Some v \<Longrightarrow> v = ALIVE \<or> v = DEAD"
proof -
  assume b: "binary b" and c: "cell b i j = Some v"
  from c have i: "nat i < length b" and j: "nat j < length (b ! nat i)" and v: "v = b ! nat i ! nat j"
    by (auto simp: cell_def split: if_splits)
  from i have "b ! nat i \<in> set b" by simp
  moreover from j have "b ! nat i ! nat j \<in> set (b ! nat i)" by simp
  ultimately show ?thesis using b v unfolding binary_def by blast
qed

lemma binary_cell_bounds: "binary b \<Longrightarrow> cell b i j = Some v \<Longrightarrow> 0 \<le> v \<and> v \<le> 1"
  using binary_cell [of b i j v] by auto

lemma binary_nth: "binary b \<Longrightarrow> wf_grid n b \<Longrightarrow> 0 \<le> i \<Longrightarrow> i < n \<Longrightarrow> 0 \<le> j \<Longrightarrow> j < n \<Longrightarrow>
  b ! nat i ! nat j = ALIVE \<or> b ! nat i ! nat j = DEAD"
  using binary_cell [of b i j] cell_wf [of n b i j] by simp

lemma update_cell_cases:
  assumes "update_cell n bw i j b = Some b'"
  shows "b' = b \<or> b' = put b i j DEAD \<or> b' = put b i j ALIVE"
proof -
  from assms obtain k :: int where
    r: "(if k < 2 then kill_cell i j b
         else cell bw i j \<bind> (\<lambda>c. if c = DEAD \<and> k = 3 then produce_cell i j b
              else if k < 4 \<and> k > 1 then Some b
              else if k > 3 then kill_cell i j b else Some b)) = Some b'"
    unfolding update_cell_def bind_eq_Some_conv by blast
  show ?thesis
  proof (cases "k < 2")
    case True
    with r show ?thesis by (simp add: kill_cell_def set_cell_Some)
  next
    case False
    with r obtain c :: int where
      "(if c = DEAD \<and> k = 3 then produce_cell i j b
        else if k < 4 \<and> k > 1 then Some b
        else if k > 3 then kill_cell i j b else Some b) = Some b'"
      by (auto simp: bind_eq_Some_conv)
    then show ?thesis
      by (auto simp: kill_cell_def produce_cell_def split: if_splits dest: set_cell_Some)
  qed
qed

lemma update_cell_binary: "binary b \<Longrightarrow> update_cell n bw i j b = Some b' \<Longrightarrow> binary b'"
  using update_cell_cases [of n bw i j b b'] by (auto intro: binary_put)

lemma loop_cols_binary: "binary b \<Longrightarrow> loop_cols n bw i j b = Some b' \<Longrightarrow> binary b'"
proof (induction n bw i j b rule: loop_cols.induct)
  case (1 n bw i j b)
  show ?case
  proof (cases "j < n")
    case True
    with 1(3) obtain b1 where u: "update_cell n bw i j b = Some b1"
      and l: "loop_cols n bw i (j + 1) b1 = Some b'"
      by (subst (asm) loop_cols.simps) (auto split: bind_splits)
    from 1(1) [OF True u update_cell_binary [OF 1(2) u] l] show ?thesis .
  next
    case False
    with 1(2,3) show ?thesis by (subst (asm) loop_cols.simps) simp
  qed
qed

lemma loop_rows_binary: "binary b \<Longrightarrow> loop_rows n bw i b = Some b' \<Longrightarrow> binary b'"
proof (induction n bw i b rule: loop_rows.induct)
  case (1 n bw i b)
  show ?case
  proof (cases "i < n")
    case True
    with 1(3) obtain b1 where u: "loop_cols n bw i 0 b = Some b1"
      and l: "loop_rows n bw (i + 1) b1 = Some b'"
      by (subst (asm) loop_rows.simps) (auto split: bind_splits)
    from 1(1) [OF True u loop_cols_binary [OF 1(2) u] l] show ?thesis .
  next
    case False
    with 1(2,3) show ?thesis by (subst (asm) loop_rows.simps) simp
  qed
qed

lemma binary_update_row:
  "binary d \<Longrightarrow> \<forall>c \<in> set r. c = ALIVE \<or> c = DEAD \<Longrightarrow> binary (d[k := r])"
  unfolding binary_def by (auto dest!: set_update_subset_insert [THEN subsetD])

lemma memcpy_row_binary:
  assumes "\<forall>c \<in> set d. c = ALIVE \<or> c = DEAD" "\<forall>c \<in> set s. c = ALIVE \<or> c = DEAD"
    "memcpy_row d s n = Some r"
  shows "\<forall>c \<in> set r. c = ALIVE \<or> c = DEAD"
proof -
  from assms(3) have r: "r = take (nat n) s @ drop (nat n) d"
    by (auto simp: memcpy_row_def split: if_splits)
  show ?thesis unfolding r using assms(1,2)
    by (auto dest: in_set_takeD in_set_dropD)
qed

lemma copy_rows_binary: "binary src \<Longrightarrow> binary dst \<Longrightarrow> copy_rows n src i dst = Some d' \<Longrightarrow> binary d'"
proof (induction n src i dst rule: copy_rows.induct)
  case (1 n src i dst)
  show ?case
  proof (cases "i < n")
    case True
    with 1(4) obtain r where
      li: "0 \<le> i \<and> i < int (length src) \<and> i < int (length dst)"
      and m: "memcpy_row (dst ! nat i) (src ! nat i) n = Some r"
      and c: "copy_rows n src (i + 1) (dst[nat i := r]) = Some d'"
      by (subst (asm) copy_rows.simps) (auto split: bind_splits if_splits)
    have "src ! nat i \<in> set src" "dst ! nat i \<in> set dst" using li by auto
    then have "\<forall>c \<in> set r. c = ALIVE \<or> c = DEAD"
      using memcpy_row_binary [OF _ _ m] 1(2,3) by (auto simp: binary_def)
    then have "binary (dst[nat i := r])" using 1(3) by (simp add: binary_update_row)
    from 1(1) [OF True li m 1(2) this c] show ?thesis .
  next
    case False
    with 1(3,4) show ?thesis by (subst (asm) copy_rows.simps) simp
  qed
qed

lemma step_binary:
  assumes "binary b" "binary bw" "step n (b, bw) = Some p"
  shows "binary (fst p) \<and> binary (snd p)"
proof -
  from assms(3) obtain bw' b' where c: "copy_board n b bw = Some bw'"
    and l: "loop_rows n bw' 0 b = Some b'" and p: "p = (b', bw')"
    by (auto simp: step_def split: bind_splits)
  have "binary bw'" using copy_rows_binary [OF assms(1,2)] c by (simp add: copy_board_def)
  moreover have "binary b'" using loop_rows_binary [OF assms(1) l] .
  ultimately show ?thesis using p by simp
qed

lemma count_neighbors_bound:
  assumes "binary bw" "count_neighbors n bw i j = Some k"
  shows "0 \<le> k \<and> k \<le> 8"
  using assms(2) unfolding count_neighbors_def bind_eq_Some_conv
  apply (elim exE conjE)
  apply (drule binary_cell_bounds [OF assms(1)])+
  apply simp
  done

subsection \<open>Writing, the generations loop, reading\<close>

lemma write_cols_wf:
  "0 \<le> i \<Longrightarrow> nat i < length b \<Longrightarrow> length (b ! nat i) = nat n \<Longrightarrow>
   \<forall>c \<in> set (b ! nat i). c = ALIVE \<or> c = DEAD \<Longrightarrow> 0 \<le> j \<Longrightarrow> j \<le> n \<Longrightarrow>
    \<exists>s'. write_cols n b i j st =
      Some (s', snd st @ map (\<lambda>c. if c = ALIVE then CHR ''#'' else CHR ''-'') (drop (nat j) (b ! nat i)))"
proof (induction n b i j st rule: write_cols.induct)
  case (1 n b i j st)
  note i = 1(2) and il = 1(3) and len = 1(4) and bin = 1(5) and j0 = 1(6) and jn = 1(7)
  show ?case
  proof (cases "j < n")
    case False
    with jn len show ?thesis by (subst write_cols.simps) (cases st, auto)
  next
    case True
    let ?c = "b ! nat i ! nat j"
    have jl: "nat j < length (b ! nat i)" using True j0 len by simp
    then have c: "cell b i j = Some ?c" using i il j0 by (simp add: cell_def nat_less_iff)
    have "?c \<in> set (b ! nat i)" using jl by simp
    then have cb: "?c = ALIVE \<or> ?c = DEAD" using bin by blast
    let ?symbol = "if ?c = ALIVE then Some CHR ''#'' else if ?c = DEAD then Some CHR ''-'' else fst st"
    let ?ch = "if ?c = ALIVE then CHR ''#'' else CHR ''-''"
    have s: "?symbol = Some ?ch" using cb by auto
    have "\<exists>s'. write_cols n b i (j + 1) (?symbol, snd st @ [?ch]) =
      Some (s', snd (?symbol, snd st @ [?ch]) @
        map (\<lambda>c. if c = ALIVE then CHR ''#'' else CHR ''-'') (drop (nat (j + 1)) (b ! nat i)))"
      using 1(1) [OF True c refl s i il len bin] j0 True by simp
    moreover have "drop (nat j) (b ! nat i) = ?c # drop (nat (j + 1)) (b ! nat i)"
      using jl j0 by (simp add: Cons_nth_drop_Suc nat_add_distrib)
    ultimately show ?thesis
      using True c s by (subst write_cols.simps) (simp add: Let_def)
  qed
qed

lemma render_Cons:
  "render (r # b) = map (\<lambda>c. if c = ALIVE then CHR ''#'' else CHR ''-'') r @ CHR 0x0A # render b"
  by (simp add: render_def)

lemma write_rows_wf:
  "wf_grid n b \<Longrightarrow> binary b \<Longrightarrow> 0 \<le> i \<Longrightarrow> i \<le> n \<Longrightarrow>
    \<exists>s'. write_rows n b i st = Some (s', snd st @ render (drop (nat i) b))"
proof (induction n b i st rule: write_rows.induct)
  case (1 n b i st)
  note wf = 1(2) and bn = 1(3) and i0 = 1(4) and i_n = 1(5)
  show ?case
  proof (cases "i < n")
    case False
    with i_n wf show ?thesis
      by (subst write_rows.simps) (cases st, auto simp: wf_grid_def render_def)
  next
    case True
    have il: "nat i < length b" using True i0 wf by (simp add: wf_grid_def)
    then have mem: "b ! nat i \<in> set b" by simp
    have len: "length (b ! nat i) = nat n" using mem wf by (simp add: wf_grid_def)
    have bin: "\<forall>c \<in> set (b ! nat i). c = ALIVE \<or> c = DEAD" using mem bn by (simp add: binary_def)
    have n0: "(0::int) \<le> 0" "0 \<le> n" using True i0 by simp_all
    from write_cols_wf [OF i0 il len bin n0, of st]
    obtain s1 where w: "write_cols n b i 0 st =
        Some (s1, snd st @ map (\<lambda>c. if c = ALIVE then CHR ''#'' else CHR ''-'') (b ! nat i))"
      by auto
    let ?st1 = "(s1, snd st @ map (\<lambda>c. if c = ALIVE then CHR ''#'' else CHR ''-'') (b ! nat i))"
    have "\<exists>s'. write_rows n b (i + 1) (fst ?st1, snd ?st1 @ [CHR 0x0A]) =
       Some (s', snd (fst ?st1, snd ?st1 @ [CHR 0x0A]) @ render (drop (nat (i + 1)) b))"
      using 1(1) [OF True w wf bn] i0 True by simp
    moreover have "drop (nat i) b = b ! nat i # drop (nat (i + 1)) b"
      using il i0 by (simp add: Cons_nth_drop_Suc nat_add_distrib)
    ultimately show ?thesis
      using True w by (subst write_rows.simps) (simp add: render_Cons)
  qed
qed

lemma write_board_wf:
  assumes "wf_grid (sq s) (board s)" "binary (board s)"
  shows "write_board f s =
     Some (if writable s f
           then s\<lparr>files := (files s)(f \<mapsto> render (board s)),
                  trace := trace s @ [Wrote f (render (board s))]\<rparr>
           else s\<lparr>trace := trace s @ [Printed (''Error opening '' @ f @ '' for writing.'')]\<rparr>)"
proof (cases "0 \<le> sq s")
  case True
  with write_rows_wf [OF assms, of 0 "(None, [])"] show ?thesis
    by (auto simp: write_board_def)
next
  case False
  with assms(1) have "board s = []" by (simp add: wf_grid_def)
  with False show ?thesis by (simp add: write_board_def write_rows.simps render_def)
qed

lemma binary_next_gen:
  assumes "wf_grid n b" "binary b"
  shows "binary (next_gen n b)"
  using step_binary [OF assms(2) assms(2), of n] step_wf [OF assms(1) assms(1)] by simp

lemma loop_gens_wf:
  "wf_grid (sq s) (board s) \<Longrightarrow> binary (board s) \<Longrightarrow> wf_grid (sq s) (board_w s) \<Longrightarrow>
   \<exists>s'. loop_gens gmax gc s = Some s' \<and>
        board s' = (next_gen (sq s) ^^ nat (gmax - gc)) (board s) \<and>
        board_w s' = (if gc < gmax then (next_gen (sq s) ^^ (nat (gmax - gc) - 1)) (board s) else board_w s) \<and>
        sq s' = sq s \<and> g s' = g s \<and> writable s' = writable s \<and>
        trace s' = trace s @ (if writable s ''board'' then gens_trace (nat (gmax - gc)) (sq s) (board s)
                              else replicate (nat (gmax - gc)) open_error) \<and>
        files s' = (if gc < gmax \<and> writable s ''board''
                    then (files s)(''board'' \<mapsto> render (board s')) else files s)"
proof (induction gmax gc s rule: loop_gens.induct)
  case (1 gmax gc s)
  note wf = 1(2) and bn = 1(3) and wfw = 1(4)
  show ?case
  proof (cases "gc < gmax")
    case False
    then show ?thesis by (subst loop_gens.simps) simp
  next
    case True
    let ?n = "sq s" and ?b = "board s"
    let ?p = "(next_gen ?n ?b, ?b)"
    let ?s1 = "s\<lparr>board := fst ?p, board_w := snd ?p\<rparr>"
    let ?s2 = "if writable s ''board''
           then ?s1\<lparr>files := (files s)(''board'' \<mapsto> render (next_gen ?n ?b)),
                  trace := trace s @ [Wrote ''board'' (render (next_gen ?n ?b))]\<rparr>
           else ?s1\<lparr>trace := trace s @ [open_error]\<rparr>"
    have st: "step ?n (?b, board_w s) = Some ?p" using wf wfw by (rule step_wf)
    have wf1: "wf_grid ?n (next_gen ?n ?b)" by (rule wf_next_gen)
    have bn1: "binary (next_gen ?n ?b)" using wf bn by (rule binary_next_gen)
    have wr: "write_board ''board'' ?s1 = Some ?s2"
      using write_board_wf [of ?s1 "''board''"] wf1 bn1 by (simp add: open_error_def)
    have f2: "sq ?s2 = ?n" "board ?s2 = next_gen ?n ?b" "board_w ?s2 = ?b" "g ?s2 = g s"
      "writable ?s2 = writable s" by simp_all
    have pre: "wf_grid (sq ?s2) (board ?s2)" "binary (board ?s2)" "wf_grid (sq ?s2) (board_w ?s2)"
      unfolding f2 using wf1 bn1 wf by simp_all
    from 1(1) [OF True st wr pre]
    obtain s' where l: "loop_gens gmax (gc + 1) ?s2 = Some s'"
      and b': "board s' = (next_gen ?n ^^ nat (gmax - (gc + 1))) (next_gen ?n ?b)"
      and w': "board_w s' = (if gc + 1 < gmax
                 then (next_gen ?n ^^ (nat (gmax - (gc + 1)) - 1)) (next_gen ?n ?b) else ?b)"
      and o': "sq s' = ?n" "g s' = g s" "writable s' = writable s"
      and t': "trace s' = trace ?s2 @ (if writable s ''board''
                   then gens_trace (nat (gmax - (gc + 1))) ?n (next_gen ?n ?b)
                   else replicate (nat (gmax - (gc + 1))) open_error)"
      and fl': "files s' = (if gc + 1 < gmax \<and> writable s ''board''
                    then (files ?s2)(''board'' \<mapsto> render (board s')) else files ?s2)"
      unfolding f2 by blast
    have d: "nat (gmax - gc) = Suc (nat (gmax - (gc + 1)))" using True by linarith
    have run: "loop_gens gmax gc s = Some s'"
      using True st wr l by (subst loop_gens.simps) simp
    have 1: "board s' = (next_gen ?n ^^ nat (gmax - gc)) ?b"
      unfolding d b' by (simp add: funpow_swap1)
    have 2: "board_w s' = (next_gen ?n ^^ (nat (gmax - gc) - 1)) ?b"
    proof (cases "gc + 1 < gmax")
      case True
      then obtain e where e: "nat (gmax - (gc + 1)) = Suc e" by (cases "nat (gmax - (gc + 1))") auto
      show ?thesis unfolding w' d using True e by (simp add: funpow_swap1)
    next
      case False
      then have "nat (gmax - (gc + 1)) = 0" by simp
      with False show ?thesis unfolding w' d by simp
    qed
    have 3: "trace s' = trace s @ (if writable s ''board'' then gens_trace (nat (gmax - gc)) ?n ?b
                              else replicate (nat (gmax - gc)) open_error)"
      unfolding t' d by simp
    have 4: "files s' = (if writable s ''board''
                    then (files s)(''board'' \<mapsto> render (board s')) else files s)"
    proof (cases "gc + 1 < gmax")
      case True
      then show ?thesis unfolding fl' by simp
    next
      case False
      then have "nat (gmax - (gc + 1)) = 0" by simp
      with False b' show ?thesis unfolding fl' by simp
    qed
    show ?thesis using run 1 2 3 4 o' True by simp
  qed
qed


lemma read_board_inv:
  assumes "read_board f s = Some s'"
  shows "\<exists>cs b'. files s f = Some cs \<and> read_chars cs 0 0 (board s) = Some b' \<and> s' = s\<lparr>board := b'\<rparr>"
  using assms by (auto simp: read_board_def bind_eq_Some_conv split: option.splits)

lemma wf_create_board:
  "wf_grid (sq s) (board (create_board s))" "wf_grid (sq s) (board_w (create_board s))"
  "binary (board (create_board s))" "binary (board_w (create_board s))"
  by (simp_all add: create_board_def wf_grid_def binary_def)

subsection \<open>The trace of the loop; what reading preserves\<close>




subsection \<open>Reading and the loop keep cells binary; the exit status\<close>



lemma read_chars_binary: "binary b \<Longrightarrow> read_chars cs x y b = Some b' \<Longrightarrow> binary b'"
proof (induction cs arbitrary: x y b)
  case Nil
  then show ?case by simp
next
  case (Cons ch cs)
  consider (eof) "ch = CHR 0xFF" | (nl) "ch \<noteq> CHR 0xFF" "ch = CHR 0x0A"
    | (dead) "ch \<noteq> CHR 0xFF" "ch \<noteq> CHR 0x0A" "ch = CHR ''-''"
    | (alive) "ch \<noteq> CHR 0xFF" "ch \<noteq> CHR 0x0A" "ch \<noteq> CHR ''-''" "ch = CHR ''#''"
    | (other) "ch \<noteq> CHR 0xFF" "ch \<noteq> CHR 0x0A" "ch \<noteq> CHR ''-''" "ch \<noteq> CHR ''#''"
    by blast
  then show ?case
  proof cases
    case eof
    with Cons.prems show ?thesis by simp
  next
    case nl
    with Cons.prems have "read_chars cs 0 (y + 1) b = Some b'" by simp
    with Cons.IH Cons.prems(1) show ?thesis by blast
  next
    case dead
    with Cons.prems(2) obtain b1 where s: "set_cell b x y DEAD = Some b1"
      and r: "read_chars cs (x + 1) y b1 = Some b'"
      by (auto simp: bind_eq_Some_conv)
    have "b1 = put b x y DEAD" using s by (rule set_cell_Some)
    then have "binary b1" using Cons.prems(1) by (simp add: binary_put)
    with Cons.IH r show ?thesis by blast
  next
    case alive
    with Cons.prems(2) obtain b1 where s: "set_cell b x y ALIVE = Some b1"
      and r: "read_chars cs (x + 1) y b1 = Some b'"
      by (auto simp: bind_eq_Some_conv)
    have "b1 = put b x y ALIVE" using s by (rule set_cell_Some)
    then have "binary b1" using Cons.prems(1) by (simp add: binary_put)
    with Cons.IH r show ?thesis by blast
  next
    case other
    with Cons.prems have "read_chars cs (x + 1) y b = Some b'" by simp
    with Cons.IH Cons.prems(1) show ?thesis by blast
  qed
qed

lemma write_board_boards:
  "write_board f s = Some s' \<Longrightarrow> board s' = board s \<and> board_w s' = board_w s"
  by (auto simp: write_board_def bind_eq_Some_conv split: if_splits)

lemma loop_gens_binary:
  "binary (board s) \<Longrightarrow> binary (board_w s) \<Longrightarrow> loop_gens gmax gc s = Some s' \<Longrightarrow>
   binary (board s') \<and> binary (board_w s')"
proof (induction gmax gc s rule: loop_gens.induct)
  case (1 gmax gc s)
  show ?case
  proof (cases "gc < gmax")
    case False
    with 1(2,3,4) show ?thesis by (subst (asm) loop_gens.simps) simp
  next
    case True
    with 1(4) obtain p s1 where st: "step (sq s) (board s, board_w s) = Some p"
      and wr: "write_board ''board'' (s\<lparr>board := fst p, board_w := snd p\<rparr>) = Some s1"
      and l: "loop_gens gmax (gc + 1) s1 = Some s'"
      by (subst (asm) loop_gens.simps) (auto simp: bind_eq_Some_conv)
    from step_binary [OF 1(2,3) st] write_board_boards [OF wr]
    have "binary (board s1)" "binary (board_w s1)" by simp_all
    from 1(1) [OF True st wr this l] show ?thesis .
  qed
qed

lemma loop_board_total:
  assumes "wf_grid (sq s) (board s)" "binary (board s)" "wf_grid (sq s) (board_w s)"
  shows "\<exists>s'. loop_board s = Some s'"
proof -
  from loop_gens_wf [OF assms, of "g s" 0] obtain s' where "loop_gens (g s) 0 s = Some s'"
    by (elim exE conjE)
  then show ?thesis by (simp add: loop_board_def)
qed

subsection \<open>The block is a fixed point\<close>

lemma pair_neighbours:
  fixes n r i :: int
  assumes "4 \<le> n" "0 \<le> r" "r < n" "0 \<le> i" "i < n"
  shows "(i = r \<or> i = (r + 1) mod n) \<longrightarrow>
           (((i - 1) mod n = r \<or> (i - 1) mod n = (r + 1) mod n) \<longleftrightarrow>
            \<not> ((i + 1) mod n = r \<or> (i + 1) mod n = (r + 1) mod n))"
    and "\<not> (i = r \<or> i = (r + 1) mod n) \<longrightarrow>
           \<not> (((i - 1) mod n = r \<or> (i - 1) mod n = (r + 1) mod n) \<and>
              ((i + 1) mod n = r \<or> (i + 1) mod n = (r + 1) mod n))"
  unfolding mod_prev_if [OF assms(4,5)] mod_next_if [OF assms(4,5)] mod_next_if [OF assms(2,3)]
  using assms by (auto split: if_splits)

lemma still_life_rule:
  fixes A B C X Y Z :: bool
  assumes "B \<longrightarrow> (A \<longleftrightarrow> \<not> C)" "\<not> B \<longrightarrow> \<not> (A \<and> C)" "Y \<longrightarrow> (X \<longleftrightarrow> \<not> Z)" "\<not> Y \<longrightarrow> \<not> (X \<and> Z)"
  shows "rule (if B \<and> Y then 1 else 0)
           ((if A \<and> X then 1 else 0) + (if A \<and> Y then 1 else 0) + (if A \<and> Z then 1 else 0) +
            (if B \<and> X then 1 else 0) + (if B \<and> Z then 1 else 0) +
            (if C \<and> X then 1 else 0) + (if C \<and> Y then 1 else 0) + (if C \<and> Z then 1 else 0))
         = (if B \<and> Y then 1 else 0)"
  using assms
  by (cases A; cases B; cases C; cases X; cases Y; cases Z) (simp_all add: rule_def)

lemma block_nth:
  "0 \<le> i \<Longrightarrow> i < n \<Longrightarrow> 0 \<le> j \<Longrightarrow> j < n \<Longrightarrow>
   block n r c ! nat i ! nat j =
     (if (i = r \<or> i = (r + 1) mod n) \<and> (j = c \<or> j = (c + 1) mod n) then 1 else 0)"
  by (simp add: block_def mk_grid_nth)

lemma torus_count_block:
  assumes "0 \<le> i" "i < n" "0 \<le> j" "j < n"
  shows "torus_count n (block n r c) i j =
    (if ((i - 1) mod n = r \<or> (i - 1) mod n = (r + 1) mod n) \<and> ((j - 1) mod n = c \<or> (j - 1) mod n = (c + 1) mod n) then 1 else 0) +
    (if ((i - 1) mod n = r \<or> (i - 1) mod n = (r + 1) mod n) \<and> (j = c \<or> j = (c + 1) mod n) then 1 else 0) +
    (if ((i - 1) mod n = r \<or> (i - 1) mod n = (r + 1) mod n) \<and> ((j + 1) mod n = c \<or> (j + 1) mod n = (c + 1) mod n) then 1 else 0) +
    (if (i = r \<or> i = (r + 1) mod n) \<and> ((j - 1) mod n = c \<or> (j - 1) mod n = (c + 1) mod n) then 1 else 0) +
    (if (i = r \<or> i = (r + 1) mod n) \<and> ((j + 1) mod n = c \<or> (j + 1) mod n = (c + 1) mod n) then 1 else 0) +
    (if ((i + 1) mod n = r \<or> (i + 1) mod n = (r + 1) mod n) \<and> ((j - 1) mod n = c \<or> (j - 1) mod n = (c + 1) mod n) then 1 else 0) +
    (if ((i + 1) mod n = r \<or> (i + 1) mod n = (r + 1) mod n) \<and> (j = c \<or> j = (c + 1) mod n) then 1 else 0) +
    (if ((i + 1) mod n = r \<or> (i + 1) mod n = (r + 1) mod n) \<and> ((j + 1) mod n = c \<or> (j + 1) mod n = (c + 1) mod n) then 1 else 0)"
proof -
  have n: "0 < n" using assms by simp
  show ?thesis
    using assms n by (simp add: torus_count_def moore_def block_nth)
qed

lemma next_gen_block:
  assumes "4 \<le> n" "0 \<le> r" "r < n" "0 \<le> c" "c < n"
  shows "next_gen n (block n r c) = block n r c"
proof (rule grid_ext [of n])
  show "wf_grid n (next_gen n (block n r c))" by (rule wf_next_gen)
  show "wf_grid n (block n r c)" unfolding block_def by (rule wf_mk_grid)
next
  fix i j assume ij: "0 \<le> i" "i < n" "0 \<le> j" "j < n"
  have "next_gen n (block n r c) ! nat i ! nat j
      = rule (block n r c ! nat i ! nat j) (torus_count n (block n r c) i j)"
    using ij by (simp add: next_gen_def mk_grid_nth)
  also have "\<dots> = block n r c ! nat i ! nat j"
    unfolding torus_count_block [OF ij] block_nth [OF ij]
    by (rule still_life_rule)
       (rule pair_neighbours [OF assms(1,2,3) ij(1,2)] pair_neighbours [OF assms(1,4,5) ij(3,4)])+
  finally show "next_gen n (block n r c) ! nat i ! nat j = block n r c ! nat i ! nat j" .
qed

lemma binary_mk_grid: "(\<And>i j. f i j = ALIVE \<or> f i j = DEAD) \<Longrightarrow> binary (mk_grid n f)"
  by (auto simp: binary_def mk_grid_def)

lemma funpow_fixed: "f x = x \<Longrightarrow> (f ^^ k) x = x"
  by (induction k) simp_all

subsection \<open>Reading back what was written\<close>

lemma read_line:
  "wf_grid n B \<Longrightarrow> 0 \<le> x \<Longrightarrow> 0 \<le> y \<Longrightarrow> y < n \<Longrightarrow> x + int (length cs) \<le> n \<Longrightarrow>
   \<forall>c \<in> set cs. c = ALIVE \<or> c = DEAD \<Longrightarrow>
   \<exists>B'. read_chars (map (\<lambda>c. if c = ALIVE then CHR ''#'' else CHR ''-'') cs @ rest) x y B
          = read_chars rest (x + int (length cs)) y B' \<and> wf_grid n B' \<and>
        (\<forall>i j. 0 \<le> i \<and> i < n \<and> 0 \<le> j \<and> j < n \<longrightarrow>
           B' ! nat i ! nat j =
             (if j = y \<and> x \<le> i \<and> i < x + int (length cs) then cs ! nat (i - x) else B ! nat i ! nat j))"
proof (induction cs arbitrary: x B)
  case Nil
  then show ?case by auto
next
  case (Cons c cs)
  let ?B1 = "put B x y c"
  have x: "x < n" using Cons.prems(5) by simp
  have c: "c = ALIVE \<or> c = DEAD" using Cons.prems(6) by simp
  have sc: "set_cell B x y c = Some ?B1"
    using Cons.prems(1,2) x Cons.prems(3,4) by (rule set_cell_wf)
  have first: "read_chars (map (\<lambda>c. if c = ALIVE then CHR ''#'' else CHR ''-'') (c # cs) @ rest) x y B
      = read_chars (map (\<lambda>c. if c = ALIVE then CHR ''#'' else CHR ''-'') cs @ rest) (x + 1) y ?B1"
    using c sc by auto
  have w1: "wf_grid n ?B1" using Cons.prems(1) by (rule wf_grid_put)
  from Cons.IH [OF w1, of "x + 1"] Cons.prems
  obtain B' where r: "read_chars (map (\<lambda>c. if c = ALIVE then CHR ''#'' else CHR ''-'') cs @ rest) (x + 1) y ?B1
          = read_chars rest (x + 1 + int (length cs)) y B'" and w': "wf_grid n B'"
    and cells: "\<And>i j. 0 \<le> i \<and> i < n \<and> 0 \<le> j \<and> j < n \<Longrightarrow>
           B' ! nat i ! nat j =
             (if j = y \<and> x + 1 \<le> i \<and> i < x + 1 + int (length cs) then cs ! nat (i - (x + 1))
              else ?B1 ! nat i ! nat j)"
    by auto
  have "B' ! nat i ! nat j =
      (if j = y \<and> x \<le> i \<and> i < x + int (length (c # cs)) then (c # cs) ! nat (i - x) else B ! nat i ! nat j)"
    if ij: "0 \<le> i \<and> i < n \<and> 0 \<le> j \<and> j < n" for i j
  proof -
    have p: "?B1 ! nat i ! nat j = (if i = x \<and> j = y then c else B ! nat i ! nat j)"
      using nth_put [OF Cons.prems(1,2) x Cons.prems(3,4), of i j c] ij by simp
    have "(c # cs) ! nat (i - x) = cs ! nat (i - (x + 1))" if "x + 1 \<le> i"
    proof -
      from that have "nat (i - x) = Suc (nat (i - (x + 1)))" by simp
      then show ?thesis by simp
    qed
    then show ?thesis unfolding cells [OF ij] p by auto
  qed
  moreover have "x + 1 + int (length cs) = x + int (length (c # cs))" by simp
  ultimately show ?case using first r w' by (metis (no_types, lifting))
qed

lemma read_lines:
  "wf_grid n B \<Longrightarrow> 0 \<le> y \<Longrightarrow> y + int (length rows) \<le> n \<Longrightarrow>
   \<forall>r \<in> set rows. length r = nat n \<and> (\<forall>c \<in> set r. c = ALIVE \<or> c = DEAD) \<Longrightarrow>
   \<exists>B'. read_chars (render rows) 0 y B = Some B' \<and> wf_grid n B' \<and>
        (\<forall>i j. 0 \<le> i \<and> i < n \<and> 0 \<le> j \<and> j < n \<longrightarrow>
           B' ! nat i ! nat j =
             (if y \<le> j \<and> j < y + int (length rows) then rows ! nat (j - y) ! nat i
              else B ! nat i ! nat j))"
proof (induction rows arbitrary: y B)
  case Nil
  then show ?case by (simp add: render_def)
next
  case (Cons r rows)
  have y: "y < n" using Cons.prems(3) by simp
  have n: "0 \<le> n" using Cons.prems(2) y by simp
  have len: "(0::int) + int (length r) \<le> n" using Cons.prems(4) n by simp
  have bin: "\<forall>c \<in> set r. c = ALIVE \<or> c = DEAD" using Cons.prems(4) by simp
  have z: "(0::int) \<le> 0" by simp
  from read_line [OF Cons.prems(1) z Cons.prems(2) y len bin, of "CHR 0x0A # render rows"]
  obtain B1 where r1: "read_chars (map (\<lambda>c. if c = ALIVE then CHR ''#'' else CHR ''-'') r @ CHR 0x0A # render rows) 0 y B
          = read_chars (CHR 0x0A # render rows) (0 + int (length r)) y B1" and w1: "wf_grid n B1"
    and c1: "\<And>i j. 0 \<le> i \<and> i < n \<and> 0 \<le> j \<and> j < n \<Longrightarrow>
           B1 ! nat i ! nat j =
             (if j = y \<and> 0 \<le> i \<and> i < 0 + int (length r) then r ! nat (i - 0) else B ! nat i ! nat j)"
    by auto
  have first: "read_chars (render (r # rows)) 0 y B = read_chars (render rows) 0 (y + 1) B1"
    unfolding render_Cons r1 by simp
  have y1: "0 \<le> y + 1" "y + 1 + int (length rows) \<le> n" using Cons.prems(2,3) by simp_all
  have rs: "\<forall>r \<in> set rows. length r = nat n \<and> (\<forall>c \<in> set r. c = ALIVE \<or> c = DEAD)"
    using Cons.prems(4) by simp
  from Cons.IH [OF w1 y1 rs]
  obtain B' where r2: "read_chars (render rows) 0 (y + 1) B1 = Some B'" and w': "wf_grid n B'"
    and c2: "\<And>i j. 0 \<le> i \<and> i < n \<and> 0 \<le> j \<and> j < n \<Longrightarrow>
           B' ! nat i ! nat j =
             (if y + 1 \<le> j \<and> j < y + 1 + int (length rows) then rows ! nat (j - (y + 1)) ! nat i
              else B1 ! nat i ! nat j)"
    by auto
  have "B' ! nat i ! nat j =
      (if y \<le> j \<and> j < y + int (length (r # rows)) then (r # rows) ! nat (j - y) ! nat i
       else B ! nat i ! nat j)"
    if ij: "0 \<le> i \<and> i < n \<and> 0 \<le> j \<and> j < n" for i j
  proof -
    have lr: "int (length r) = n" using Cons.prems(4) n by simp
    have "(r # rows) ! nat (j - y) = rows ! nat (j - (y + 1))" if "y + 1 \<le> j"
    proof -
      from that have "nat (j - y) = Suc (nat (j - (y + 1)))" by simp
      then show ?thesis by simp
    qed
    then show ?thesis unfolding c2 [OF ij] c1 [OF ij] using ij lr by auto
  qed
  then show ?case using first r2 w' by (metis (no_types, lifting))
qed

lemma read_render_transposes:
  assumes "wf_grid n b" "binary b" "wf_grid n b0"
  shows "read_chars (render b) 0 0 b0 = Some (mk_grid n (\<lambda>i j. b ! nat j ! nat i))"
proof -
  have rows: "\<forall>r \<in> set b. length r = nat n \<and> (\<forall>c \<in> set r. c = ALIVE \<or> c = DEAD)"
    using assms(1,2) by (simp add: wf_grid_def binary_def)
  show ?thesis
  proof (cases "0 \<le> n")
    case True
    then have l: "(0::int) + int (length b) \<le> n" using assms(1) by (simp add: wf_grid_def)
    have z: "(0::int) \<le> 0" by simp
    from read_lines [OF assms(3) z l rows]
    obtain B' where r: "read_chars (render b) 0 0 b0 = Some B'" and w: "wf_grid n B'"
      and c: "\<And>i j. 0 \<le> i \<and> i < n \<and> 0 \<le> j \<and> j < n \<Longrightarrow>
           B' ! nat i ! nat j =
             (if 0 \<le> j \<and> j < 0 + int (length b) then b ! nat (j - 0) ! nat i else b0 ! nat i ! nat j)"
      by auto
    have lb: "int (length b) = n" using True assms(1) by (simp add: wf_grid_def)
    have "B' = mk_grid n (\<lambda>i j. b ! nat j ! nat i)"
    proof (rule grid_ext [OF w wf_mk_grid])
      fix i j assume "0 \<le> i" "i < n" "0 \<le> j" "j < n"
      then show "B' ! nat i ! nat j = mk_grid n (\<lambda>i j. b ! nat j ! nat i) ! nat i ! nat j"
        using c [of i j] lb by (simp add: mk_grid_nth)
    qed
    with r show ?thesis by simp
  next
    case False
    with assms(1,3) have "b = []" "b0 = []" by (simp_all add: wf_grid_def)
    with False show ?thesis by (simp add: render_def mk_grid_def)
  qed
qed

lemma round_trip_transposes:
  assumes "wf_grid (sq s) (board s)" "binary (board s)" "writable s f"
  shows "write_board f s \<bind> read_board f \<bind> (\<lambda>s'. Some (board s'))
           = Some (mk_grid (sq s) (\<lambda>i j. board s ! nat j ! nat i))"
  using assms read_render_transposes [OF assms(1,2) assms(1)]
  by (simp add: write_board_wf read_board_def)

subsection \<open>The command line and a whole run of \<open>main\<close>\<close>

lemma atoi_out_of_range: "atoi ''2147483648'' = None" "atoi ''-2147483648'' = Some (- 2147483648)"
  by (simp_all add: atoi_def decimal_def isspace_def isdigit_def INT_MIN_def INT_MAX_def)





lemma sum_list_binary:
  fixes f :: "'a \<Rightarrow> int"
  shows "\<forall>x \<in> set xs. f x = 1 \<or> f x = 0 \<Longrightarrow>
    sum_list (map f xs) = int (length (filter (\<lambda>x. f x = 1) xs))"
  by (induction xs) auto

lemma torus_count_alive:
  assumes "wf_grid n b" "binary b" "0 < n"
  shows "torus_count n b i j =
    int (length (filter (\<lambda>d. b ! nat ((i + fst d) mod n) ! nat ((j + snd d) mod n) = ALIVE) moore))"
  unfolding torus_count_def
proof (rule sum_list_binary, rule ballI)
  fix d
  have "0 \<le> (i + fst d) mod n" "(i + fst d) mod n < n" "0 \<le> (j + snd d) mod n" "(j + snd d) mod n < n"
    using assms(3) by simp_all
  from binary_nth [OF assms(2,1) this]
  show "b ! nat ((i + fst d) mod n) ! nat ((j + snd d) mod n) = 1 \<or>
        b ! nat ((i + fst d) mod n) ! nat ((j + snd d) mod n) = 0" .
qed


section \<open>The claims\<close>

text \<open>\<^bold>\<open>C1\<close>. On a well-formed grid of side \<open>n\<close>, one step (the copy into the working grid
  followed by the loops over all cells) succeeds, and sets every cell \<open>(i, j)\<close> by the
  ordered rules applied to its toroidal count \<open>torus_count n b i j\<close> in the grid before
  the step, which is what \<open>count_neighbors\<close> returns and, on a binary grid, the number
  of \<open>ALIVE\<close> cells among the eight wrapped Moore neighbours: a count below 2 gives
  \<open>DEAD\<close>; else a \<open>DEAD\<close> cell with count 3 becomes \<open>ALIVE\<close>; else a count of 2 or 3
  leaves the cell as it was (so a \<open>DEAD\<close> cell with count 2 stays \<open>DEAD\<close>); else (a
  count above 3) the cell becomes \<open>DEAD\<close>.\<close>

theorem C1_step_rules:
  assumes "wf_grid n b" "wf_grid n bw" "0 \<le> i" "i < n" "0 \<le> j" "j < n"
  shows "\<exists>b'. step n (b, bw) = Some (b', b) \<and>
           count_neighbors n b i j = Some (torus_count n b i j) \<and>
           (binary b \<longrightarrow> torus_count n b i j =
              int (length (filter (\<lambda>d. b ! nat ((i + fst d) mod n) ! nat ((j + snd d) mod n) = ALIVE) moore))) \<and>
           b' ! nat i ! nat j =
             (if torus_count n b i j < 2 then DEAD
              else if b ! nat i ! nat j = DEAD \<and> torus_count n b i j = 3 then ALIVE
              else if torus_count n b i j = 2 \<or> torus_count n b i j = 3 then b ! nat i ! nat j
              else DEAD)"
proof -
  have n: "0 < n" using assms(3,4) by simp
  have "next_gen n b ! nat i ! nat j = rule (b ! nat i ! nat j) (torus_count n b i j)"
    using assms(3-6) by (simp add: next_gen_def mk_grid_nth)
  moreover have "binary b \<longrightarrow> torus_count n b i j =
      int (length (filter (\<lambda>d. b ! nat ((i + fst d) mod n) ! nat ((j + snd d) mod n) = ALIVE) moore))"
    using torus_count_alive [OF assms(1) _ n] by blast
  ultimately show ?thesis
    using step_wf [OF assms(1,2)] count_neighbors_wf [OF assms(1) assms(3-6)]
    by (simp add: rule_def)
qed

theorem C1_step_rules_witness:
  "wf_grid 3 [[0, 0, 0], [1, 1, 1], [0, 0, 0]] \<and> wf_grid 3 [[0, 0, 0], [0, 0, 0], [0, 0, 0]] \<and>
   binary [[0, 0, 0], [1, 1, 1], [0, 0, 0]] \<and>
   torus_count 3 [[0, 0, 0], [1, 1, 1], [0, 0, 0]] 0 2 = 3 \<and>
   int (length (filter (\<lambda>d. [[0, 0, 0], [1, 1, 1], [0, 0, 0]] ! nat ((0 + fst d) mod 3) ! nat ((2 + snd d) mod 3) = ALIVE) moore)) = 3 \<and>
   [[0, 0, 0], [1, 1, 1], [0, 0, 0]] ! nat 0 ! nat 2 = DEAD \<and>
   (\<exists>b'. step 3 ([[0, 0, 0], [1, 1, 1], [0, 0, 0]], [[0, 0, 0], [0, 0, 0], [0, 0, 0]])
              = Some (b', [[0, 0, 0], [1, 1, 1], [0, 0, 0]]) \<and>
         count_neighbors 3 [[0, 0, 0], [1, 1, 1], [0, 0, 0]] 0 2 = Some 3 \<and>
         b' ! nat 0 ! nat 2 = ALIVE)"
proof -
  let ?b = "[[0, 0, 0], [1, 1, 1], [0, 0, 0 :: int]]"
  have b: "wf_grid 3 ?b" by (simp add: wf_grid_def)
  have w: "wf_grid 3 [[0, 0, 0], [0, 0, 0], [0, 0, 0]]" by (simp add: wf_grid_def)
  have bin: "binary ?b" by (simp add: binary_def)
  have p: "(0::int) \<le> 0" "(0::int) < 3" "(0::int) \<le> 2" "(2::int) < 3" by simp_all
  have t: "torus_count 3 ?b 0 2 = 3" by (simp add: torus_count_def moore_def)
  from C1_step_rules [OF b w p] obtain b' where
    s: "step 3 (?b, [[0, 0, 0], [0, 0, 0], [0, 0, 0]]) = Some (b', ?b)"
    and c: "count_neighbors 3 ?b 0 2 = Some (torus_count 3 ?b 0 2)"
    and a: "binary ?b \<longrightarrow> torus_count 3 ?b 0 2 =
              int (length (filter (\<lambda>d. ?b ! nat ((0 + fst d) mod 3) ! nat ((2 + snd d) mod 3) = ALIVE) moore))"
    and r: "b' ! nat 0 ! nat 2 =
             (if torus_count 3 ?b 0 2 < 2 then DEAD
              else if ?b ! nat 0 ! nat 2 = DEAD \<and> torus_count 3 ?b 0 2 = 3 then ALIVE
              else if torus_count 3 ?b 0 2 = 2 \<or> torus_count 3 ?b 0 2 = 3 then ?b ! nat 0 ! nat 2
              else DEAD)"
    by blast
  have a': "int (length (filter (\<lambda>d. ?b ! nat ((0 + fst d) mod 3) ! nat ((2 + snd d) mod 3) = ALIVE) moore)) = 3"
    using a bin t by simp
  have d: "?b ! nat 0 ! nat 2 = DEAD" by simp
  have r': "b' ! nat 0 ! nat 2 = ALIVE" using r unfolding t by simp
  have c': "count_neighbors 3 ?b 0 2 = Some 3" using c unfolding t .
  from s c' r' have "\<exists>b'. step 3 (?b, [[0, 0, 0], [0, 0, 0], [0, 0, 0]]) = Some (b', ?b) \<and>
         count_neighbors 3 ?b 0 2 = Some 3 \<and> b' ! nat 0 ! nat 2 = ALIVE" by blast
  with b w bin t a' d show ?thesis by (intro conjI)
qed

text \<open>\<^bold>\<open>C4\<close>. On a well-formed grid the step done in place (cells visited in row-major
  order, written into the board while the counts are read from the snapshot) gives the
  grid of the simultaneous update \<open>next_gen\<close>, and so does the step that visits the
  cells in any other order: every list \<open>cs\<close> that visits exactly the cells of the grid
  gives the same result.\<close>

theorem C4_in_place_is_simultaneous:
  assumes "wf_grid n b" "wf_grid n bw"
  shows "step n (b, bw) = Some (next_gen n b, b) \<and>
         step n (b, bw) = step_in_order n (row_major n 0) (b, bw) \<and>
         (\<forall>cs. set cs = set (row_major n 0) \<longrightarrow> step_in_order n cs (b, bw) = step n (b, bw))"
proof -
  have "step n (b, bw) = Some (next_gen n b, b)"
    using assms by (rule step_wf)
  moreover have "step n (b, bw) = step_in_order n (row_major n 0) (b, bw)"
    by (rule step_as_visit)
  moreover have "step_in_order n cs (b, bw) = Some (next_gen n b, b)"
    if "set cs = set (row_major n 0)" for cs
    using assms that by (simp add: step_in_order_wf set_row_major)
  ultimately show ?thesis by simp
qed

theorem C4_in_place_is_simultaneous_witness:
  "wf_grid 2 [[0, 1], [1, 1]] \<and> wf_grid 2 [[0, 0], [0, 0]] \<and>
   set [(1, 1), (0, 1), (1, 0), (0, 0), (0, 1)] = set (row_major 2 0) \<and>
   step 2 ([[0, 1], [1, 1]], [[0, 0], [0, 0]]) = Some (next_gen 2 [[0, 1], [1, 1]], [[0, 1], [1, 1]]) \<and>
   step_in_order 2 [(1, 1), (0, 1), (1, 0), (0, 0), (0, 1)] ([[0, 1], [1, 1]], [[0, 0], [0, 0]])
     = step 2 ([[0, 1], [1, 1]], [[0, 0], [0, 0]])"
proof -
  have b: "wf_grid 2 [[0, 1], [1, 1]]" by (simp add: wf_grid_def)
  have w: "wf_grid 2 [[0, 0], [0, 0]]" by (simp add: wf_grid_def)
  have c: "set [(1, 1), (0, 1), (1, 0), (0, 0), (0, 1)] = set (row_major 2 0)"
    by (auto simp: row_major_def upto.simps)
  show ?thesis
    using b w c C4_in_place_is_simultaneous [OF b w] by blast
qed

text \<open>\<^bold>\<open>C9\<close>. On well-formed grids of side \<open>n\<close> and for a cell \<open>(i, j)\<close> of the grid, each of
  the four index expressions of \<open>count_neighbors\<close> has a remainder in \<open>[0, n)\<close>, every
  cell it reads exists, and so neither the count, nor the update of the cell, nor the
  whole step takes the out-of-bounds branch.\<close>

theorem C9_no_out_of_bounds:
  assumes "wf_grid n bw" "wf_grid n b" "0 \<le> i" "i < n" "0 \<le> j" "j < n"
  shows "(\<forall>a \<in> {i - 1 + n, i + 1 + n, j - 1 + n, j + 1 + n}.
            \<exists>k. c_mod a n = Some k \<and> 0 \<le> k \<and> k < n) \<and>
         (\<forall>r \<in> {(i - 1 + n) mod n, i, (i + 1 + n) mod n}.
            \<forall>c \<in> {(j - 1 + n) mod n, j, (j + 1 + n) mod n}. cell bw r c \<noteq> None) \<and>
         count_neighbors n bw i j \<noteq> None \<and>
         update_cell n bw i j b \<noteq> None \<and>
         step n (b, bw) \<noteq> None"
proof -
  have n: "0 < n" using assms by simp
  have r: "0 \<le> (i - 1) mod n" "(i - 1) mod n < n" "0 \<le> (i + 1) mod n" "(i + 1) mod n < n"
          "0 \<le> (j - 1) mod n" "(j - 1) mod n < n" "0 \<le> (j + 1) mod n" "(j + 1) mod n < n"
    using n by simp_all
  have 1: "\<forall>a \<in> {i - 1 + n, i + 1 + n, j - 1 + n, j + 1 + n}. \<exists>k. c_mod a n = Some k \<and> 0 \<le> k \<and> k < n"
    using n assms(3-6) r by (simp add: wrap_prev wrap_next)
  have 2: "\<forall>r \<in> {(i - 1 + n) mod n, i, (i + 1 + n) mod n}.
            \<forall>c \<in> {(j - 1 + n) mod n, j, (j + 1 + n) mod n}. cell bw r c \<noteq> None"
    using assms(3-6) r by (simp add: cell_wf [OF assms(1)])
  show ?thesis
    using 1 2 count_neighbors_wf [OF assms(1) assms(3-6)] update_cell_wf [OF assms]
      step_wf [OF assms(2,1)]
    by simp
qed

theorem C9_no_out_of_bounds_witness:
  "wf_grid 3 [[0, 0, 0], [1, 1, 1], [0, 0, 0]] \<and> wf_grid 3 [[0, 0, 0], [0, 0, 0], [0, 0, 0]] \<and>
   (\<exists>k. c_mod (0 - 1 + 3) 3 = Some k \<and> 0 \<le> k \<and> k < 3) \<and>
   (\<exists>k. c_mod (2 + 1 + 3) 3 = Some k \<and> 0 \<le> k \<and> k < 3) \<and>
   cell [[0, 0, 0], [1, 1, 1], [0, 0, 0]] ((0 - 1 + 3) mod 3) ((2 + 1 + 3) mod 3) \<noteq> None \<and>
   count_neighbors 3 [[0, 0, 0], [1, 1, 1], [0, 0, 0]] 0 2 \<noteq> None \<and>
   update_cell 3 [[0, 0, 0], [1, 1, 1], [0, 0, 0]] 0 2 [[0, 0, 0], [0, 0, 0], [0, 0, 0]] \<noteq> None \<and>
   step 3 ([[0, 0, 0], [0, 0, 0], [0, 0, 0]], [[0, 0, 0], [1, 1, 1], [0, 0, 0]]) \<noteq> None"
proof -
  have b: "wf_grid 3 [[0, 0, 0], [1, 1, 1], [0, 0, 0]]" by (simp add: wf_grid_def)
  have w: "wf_grid 3 [[0, 0, 0], [0, 0, 0], [0, 0, 0]]" by (simp add: wf_grid_def)
  show ?thesis
    using b w C9_no_out_of_bounds [OF b w, of 0 2] by simp
qed

text \<open>\<^bold>\<open>C2\<close>. On a well-formed grid of side \<open>n\<close> the count of the cell \<open>(i, j)\<close> is the sum
  of the working grid over the eight Moore offsets, both coordinates wrapped modulo
  \<open>n\<close>. On the grid whose only \<open>ALIVE\<close> cell is \<open>(0, 0)\<close>, each of the eight cells at a
  wrapped Moore offset from \<open>(0, 0)\<close> counts that cell; from side 2 on these are the
  cells \<open>(n-1, n-1)\<close>, \<open>(n-1, 0)\<close>, \<open>(n-1, 1)\<close>, \<open>(0, n-1)\<close>, \<open>(0, 1)\<close>, \<open>(1, n-1)\<close>,
  \<open>(1, 0)\<close>, \<open>(1, 1)\<close>.\<close>

theorem C2_count_is_torus_sum:
  assumes "wf_grid n bw" "0 \<le> i" "i < n" "0 \<le> j" "j < n"
  shows "count_neighbors n bw i j
           = Some (\<Sum>d \<leftarrow> moore. bw ! nat ((i + fst d) mod n) ! nat ((j + snd d) mod n)) \<and>
         (\<forall>d \<in> set moore.
            \<exists>k. count_neighbors n (lone_cell n) (fst d mod n) (snd d mod n) = Some k \<and> 1 \<le> k) \<and>
         (2 \<le> n \<longrightarrow> map (\<lambda>d. (fst d mod n, snd d mod n)) moore =
            [(n - 1, n - 1), (n - 1, 0), (n - 1, 1), (0, n - 1), (0, 1), (1, n - 1), (1, 0), (1, 1)])"
proof -
  have n: "0 < n" using assms by simp
  have w: "wf_grid n (lone_cell n)" by (simp add: lone_cell_def wf_mk_grid)
  have 1: "count_neighbors n bw i j
           = Some (\<Sum>d \<leftarrow> moore. bw ! nat ((i + fst d) mod n) ! nat ((j + snd d) mod n))"
    using count_neighbors_wf [OF assms] by (simp add: torus_count_def)
  have 2: "\<exists>k. count_neighbors n (lone_cell n) (fst d mod n) (snd d mod n) = Some k \<and> 1 \<le> k"
    if "d \<in> set moore" for d
    using count_neighbors_wf [OF w, of "fst d mod n" "snd d mod n"] n lone_cell_counted [OF n that]
    by simp
  have 3: "map (\<lambda>d. (fst d mod n, snd d mod n)) moore =
            [(n - 1, n - 1), (n - 1, 0), (n - 1, 1), (0, n - 1), (0, 1), (1, n - 1), (1, 0), (1, 1)]"
    if "2 \<le> n"
    using that by (simp add: moore_def zmod_minus1)
  show ?thesis
    apply (intro conjI ballI impI)
      apply (rule 1)
     apply (erule 2)
    apply (erule 3)
    done
qed

theorem C2_count_is_torus_sum_witness:
  "wf_grid 3 [[0, 0, 0], [1, 1, 1], [0, 0, 0]] \<and>
   count_neighbors 3 [[0, 0, 0], [1, 1, 1], [0, 0, 0]] 0 2
     = Some (\<Sum>d \<leftarrow> moore. [[0, 0, 0], [1, 1, 1], [0, 0, 0]] ! nat ((0 + fst d) mod 3) ! nat ((2 + snd d) mod 3)) \<and>
   (- 1, 1) \<in> set moore \<and>
   (\<exists>k. count_neighbors 3 (lone_cell 3) (- 1 mod 3) (1 mod 3) = Some k \<and> 1 \<le> k) \<and>
   (2::int) \<le> 3 \<and>
   map (\<lambda>d. (fst d mod 3, snd d mod 3)) moore =
     [(3 - 1, 3 - 1), (3 - 1, 0), (3 - 1, 1), (0, 3 - 1), (0, 1), (1, 3 - 1), (1, 0), (1, 1)]"
proof -
  have b: "wf_grid 3 [[0, 0, 0], [1, 1, 1], [0, 0, 0]]" by (simp add: wf_grid_def)
  have m: "(- 1, 1) \<in> set moore" by (simp add: moore_def)
  have p: "(0::int) \<le> 0" "(0::int) < 3" "(0::int) \<le> 2" "(2::int) < 3" by simp_all
  note t = C2_count_is_torus_sum [OF b p]
  have "\<exists>k. count_neighbors 3 (lone_cell 3) (fst (- 1, 1 :: int) mod 3) (snd (- 1 :: int, 1) mod 3) = Some k \<and> 1 \<le> k"
    using t m by blast
  then show ?thesis using b m t by simp
qed







text \<open>\<^bold>\<open>C10\<close>. Both grids are binary after \<open>create_board\<close>; \<open>read_board\<close> on any file,
  \<open>copy_board\<close>, one step, and the whole loop of \<open>loop_board\<close> keep them binary
  whenever they return; and on a binary working grid every neighbour count lies
  between 0 and 8.\<close>

theorem C10_cells_stay_binary:
  "binary (board (create_board s)) \<and> binary (board_w (create_board s)) \<and>
   (binary (board s) \<longrightarrow>
      (\<forall>s'. read_board f s = Some s' \<longrightarrow> binary (board s') \<and> board_w s' = board_w s)) \<and>
   (binary src \<and> binary dst \<longrightarrow> (\<forall>d. copy_board n src dst = Some d \<longrightarrow> binary d)) \<and>
   (binary b \<and> binary bw \<longrightarrow>
      (\<forall>p. step n (b, bw) = Some p \<longrightarrow> binary (fst p) \<and> binary (snd p))) \<and>
   (binary (board s) \<and> binary (board_w s) \<longrightarrow>
      (\<forall>s'. loop_board s = Some s' \<longrightarrow> binary (board s') \<and> binary (board_w s'))) \<and>
   (binary bw \<longrightarrow> (\<forall>k. count_neighbors n bw i j = Some k \<longrightarrow> 0 \<le> k \<and> k \<le> 8))"
proof -
  have 1: "binary (board (create_board s))" "binary (board_w (create_board s))"
    by (rule wf_create_board)+
  have 2: "binary (board s') \<and> board_w s' = board_w s"
    if "binary (board s)" "read_board f s = Some s'" for s'
  proof -
    from read_board_inv [OF that(2)] obtain cs b' where
      r: "read_chars cs 0 0 (board s) = Some b'" and s': "s' = s\<lparr>board := b'\<rparr>" by blast
    from read_chars_binary [OF that(1) r] s' show ?thesis by simp
  qed
  have 3: "binary d" if "binary src \<and> binary dst" "copy_board n src dst = Some d" for d
    using that copy_rows_binary [of src dst n 0 d] by (simp add: copy_board_def)
  have 4: "binary (fst p) \<and> binary (snd p)" if "binary b \<and> binary bw" "step n (b, bw) = Some p" for p
    using that step_binary [of b bw n p] by simp
  have 5: "binary (board s') \<and> binary (board_w s')"
    if "binary (board s) \<and> binary (board_w s)" "loop_board s = Some s'" for s'
    using that loop_gens_binary [of s "g s" 0 s'] by (simp add: loop_board_def)
  have 6: "0 \<le> k \<and> k \<le> 8" if "binary bw" "count_neighbors n bw i j = Some k" for k
    using that by (rule count_neighbors_bound)
  show ?thesis using 1 2 3 4 5 6 by blast
qed

theorem C10_cells_stay_binary_witness:
  "binary (board (create_board ((start (''-#'' @ [CHR 0x0A] @ ''--'' @ [CHR 0x0A]))\<lparr>sq := 2, g := 1\<rparr>))) \<and>
   read_board ''board'' (create_board ((start (''-#'' @ [CHR 0x0A] @ ''--'' @ [CHR 0x0A]))\<lparr>sq := 2, g := 1\<rparr>))
     = Some ((create_board ((start (''-#'' @ [CHR 0x0A] @ ''--'' @ [CHR 0x0A]))\<lparr>sq := 2, g := 1\<rparr>))
               \<lparr>board := [[0, 0], [1, 0]]\<rparr>) \<and>
   binary (board ((create_board ((start (''-#'' @ [CHR 0x0A] @ ''--'' @ [CHR 0x0A]))\<lparr>sq := 2, g := 1\<rparr>))
               \<lparr>board := [[0, 0], [1, 0]]\<rparr>)) \<and>
   binary [[0, 1], [1, 1]] \<and> binary [[0, 0], [0, 0]] \<and>
   copy_board 2 [[0, 1], [1, 1]] [[0, 0], [0, 0]] = Some [[0, 1], [1, 1]] \<and>
   step 2 ([[0, 1], [1, 1]], [[0, 0], [0, 0]]) = Some ([[0, 0], [0, 0]], [[0, 1], [1, 1]]) \<and>
   (\<exists>s'. loop_board ((create_board ((start (''-#'' @ [CHR 0x0A] @ ''--'' @ [CHR 0x0A]))\<lparr>sq := 2, g := 1\<rparr>))
               \<lparr>board := [[0, 0], [1, 0]]\<rparr>) = Some s' \<and> binary (board s') \<and> binary (board_w s')) \<and>
   count_neighbors 2 [[0, 1], [1, 1]] 0 0 = Some 8"
proof -
  define s where "s = (start (''-#'' @ [CHR 0x0A] @ ''--'' @ [CHR 0x0A]))\<lparr>sq := 2, g := 1\<rparr>"
  define s1 where "s1 = (create_board s)\<lparr>board := [[0, 0], [1, 0]]\<rparr>"
  have c: "binary (board (create_board s))" "binary (board_w (create_board s))"
    by (rule C10_cells_stay_binary [THEN conjunct1],
        rule C10_cells_stay_binary [THEN conjunct2, THEN conjunct1])
  have r: "read_board ''board'' (create_board s) = Some s1"
    by (simp add: s_def s1_def read_board_def start_def create_board_def set_cell_def numeral_2_eq_2)
  have b1: "binary (board s1)"
    using C10_cells_stay_binary [THEN conjunct2, THEN conjunct2, THEN conjunct1, rule_format, OF c(1) r]
    by (rule conjunct1)
  have bw1: "binary (board_w s1)" using c(2) by (simp add: s1_def)
  have bb: "binary [[0, 1], [1, 1]]" "binary [[0, 0], [0, 0]]" by (simp_all add: binary_def)
  have cp: "copy_board 2 [[0, 1], [1, 1]] [[0, 0], [0, 0]] = Some [[0, 1], [1, 1]]" by code_simp
  have st: "step 2 ([[0, 1], [1, 1]], [[0, 0], [0, 0]]) = Some ([[0, 0], [0, 0]], [[0, 1], [1, 1]])"
    by code_simp
  have cn: "count_neighbors 2 [[0, 1], [1, 1]] 0 0 = Some 8" by code_simp
  have q: "sq s1 = 2" "board s1 = [[0, 0], [1, 0]]" "board_w s1 = [[0, 0], [0, 0]]"
    by (simp_all add: s1_def s_def create_board_def numeral_2_eq_2)
  have w: "wf_grid (sq s1) (board s1)" "wf_grid (sq s1) (board_w s1)"
    unfolding q by (simp_all add: wf_grid_def)
  from loop_board_total [OF w(1) b1 w(2)]
  obtain s' where l: "loop_board s1 = Some s'" by (elim exE)
  have "binary (board s') \<and> binary (board_w s')"
    by (rule C10_cells_stay_binary [THEN conjunct2, THEN conjunct2, THEN conjunct2, THEN conjunct2,
          THEN conjunct2, THEN conjunct1, rule_format, OF conjI [OF b1 bw1] l])
  with l have lb: "\<exists>s'. loop_board s1 = Some s' \<and> binary (board s') \<and> binary (board_w s')" by blast
  have "binary (board (create_board s)) \<and> read_board ''board'' (create_board s) = Some s1 \<and>
    binary (board s1) \<and> binary [[0, 1], [1, 1]] \<and> binary [[0, 0], [0, 0]] \<and>
    copy_board 2 [[0, 1], [1, 1]] [[0, 0], [0, 0]] = Some [[0, 1], [1, 1]] \<and>
    step 2 ([[0, 1], [1, 1]], [[0, 0], [0, 0]]) = Some ([[0, 0], [0, 0]], [[0, 1], [1, 1]]) \<and>
    (\<exists>s'. loop_board s1 = Some s' \<and> binary (board s') \<and> binary (board_w s')) \<and>
    count_neighbors 2 [[0, 1], [1, 1]] 0 0 = Some 8"
    using c(1) r b1 bb cp st lb cn by (intro conjI)
  then show ?thesis unfolding s1_def s_def .
qed

text \<open>\<^bold>\<open>C3\<close>, at the grid with rows \<open>[DEAD, ALIVE]\<close> and \<open>[DEAD, DEAD]\<close>: \<open>write_board\<close>
  puts the cell \<open>board[i][j]\<close> at line \<open>i\<close>, column \<open>j\<close> of the file, and \<open>read_board\<close>
  stores the character at line \<open>y\<close>, column \<open>x\<close> into \<open>board[x][y]\<close>, so what is read
  back is the transposed grid (for every well-formed binary grid: lemma
  \<open>round_trip_transposes\<close>).\<close>

theorem C3_round_trip_transposes:
  "write_board ''board'' ((start '''')\<lparr>sq := 2, board := [[0, 1], [0, 0]], board_w := [[0, 0], [0, 0]]\<rparr>)
     \<bind> (\<lambda>s1. read_board ''board'' (create_board s1))
     \<bind> (\<lambda>s2. Some (files s2 ''board'', board s2))
   = Some (Some (''-#'' @ [CHR 0x0A] @ ''--'' @ [CHR 0x0A]), [[0, 0], [1, 0]])"
  by (simp add: write_board_def start_def write_rows.simps write_cols.simps cell_def
      read_board_def create_board_def set_cell_def numeral_2_eq_2)

text \<open>\<^bold>\<open>C8\<close>, as stated, fails: on the 3 by 3 torus every cell of the top and bottom row
  has the whole middle row among its neighbours, so one step makes all nine cells
  \<open>ALIVE\<close> instead of the middle column.\<close>

theorem C8_blinker_on_3_torus:
  "step 3 ([[0, 0, 0], [1, 1, 1], [0, 0, 0]], [[0, 0, 0], [0, 0, 0], [0, 0, 0]])
     = Some ([[1, 1, 1], [1, 1, 1], [1, 1, 1]], [[0, 0, 0], [1, 1, 1], [0, 0, 0]])"
  by code_simp

text \<open>\<^bold>\<open>C8\<close>, as the code has it. On a 5 by 5 grid, where the wrap-around does not
  interfere, the three middle cells of the middle row become the three middle cells of
  the middle column after one step, and a second step restores the row: period 2. On
  the 3 by 3 torus the middle row becomes the all-\<open>ALIVE\<close> grid after one step and the
  all-\<open>DEAD\<close> grid after the second.\<close>

theorem C8_blinker_period_2:
  "step 5 ([[0, 0, 0, 0, 0], [0, 0, 0, 0, 0], [0, 1, 1, 1, 0], [0, 0, 0, 0, 0], [0, 0, 0, 0, 0]],
           [[0, 0, 0, 0, 0], [0, 0, 0, 0, 0], [0, 0, 0, 0, 0], [0, 0, 0, 0, 0], [0, 0, 0, 0, 0]])
     = Some ([[0, 0, 0, 0, 0], [0, 0, 1, 0, 0], [0, 0, 1, 0, 0], [0, 0, 1, 0, 0], [0, 0, 0, 0, 0]],
             [[0, 0, 0, 0, 0], [0, 0, 0, 0, 0], [0, 1, 1, 1, 0], [0, 0, 0, 0, 0], [0, 0, 0, 0, 0]]) \<and>
   step 5 ([[0, 0, 0, 0, 0], [0, 0, 1, 0, 0], [0, 0, 1, 0, 0], [0, 0, 1, 0, 0], [0, 0, 0, 0, 0]],
           [[0, 0, 0, 0, 0], [0, 0, 0, 0, 0], [0, 1, 1, 1, 0], [0, 0, 0, 0, 0], [0, 0, 0, 0, 0]])
     = Some ([[0, 0, 0, 0, 0], [0, 0, 0, 0, 0], [0, 1, 1, 1, 0], [0, 0, 0, 0, 0], [0, 0, 0, 0, 0]],
             [[0, 0, 0, 0, 0], [0, 0, 1, 0, 0], [0, 0, 1, 0, 0], [0, 0, 1, 0, 0], [0, 0, 0, 0, 0]]) \<and>
   step 3 ([[0, 0, 0], [1, 1, 1], [0, 0, 0]], [[0, 0, 0], [0, 0, 0], [0, 0, 0]])
     = Some ([[1, 1, 1], [1, 1, 1], [1, 1, 1]], [[0, 0, 0], [1, 1, 1], [0, 0, 0]]) \<and>
   step 3 ([[1, 1, 1], [1, 1, 1], [1, 1, 1]], [[0, 0, 0], [1, 1, 1], [0, 0, 0]])
     = Some ([[0, 0, 0], [0, 0, 0], [0, 0, 0]], [[1, 1, 1], [1, 1, 1], [1, 1, 1]])"
  by code_simp

text \<open>\<^bold>\<open>C7\<close>. On a grid of side \<open>n \<ge> 4\<close>, the 2 by 2 block placed anywhere (its corner
  \<open>(r, c)\<close> any cell, the block wrapping around an edge where it must) is a fixed
  point: the simultaneous update leaves it unchanged after any number \<open>k\<close> of
  generations, one step of the program returns it, and \<open>loop_board\<close>, run for
  any number of generations \<open>g\<close> from a state that holds it, ends with it.\<close>

theorem C7_block_still_life:
  assumes "4 \<le> n" "0 \<le> r" "r < n" "0 \<le> c" "c < n"
  shows "(\<forall>k. (next_gen n ^^ k) (block n r c) = block n r c) \<and>
         (\<forall>bw. wf_grid n bw \<longrightarrow> step n (block n r c, bw) = Some (block n r c, block n r c)) \<and>
         (\<forall>s. sq s = n \<and> board s = block n r c \<and> wf_grid n (board_w s) \<longrightarrow>
              (\<exists>s'. loop_board s = Some s' \<and> board s' = block n r c))"
proof -
  note fp = next_gen_block [OF assms]
  have w: "wf_grid n (block n r c)" unfolding block_def by (rule wf_mk_grid)
  have b: "binary (block n r c)" unfolding block_def by (rule binary_mk_grid) simp
  have 1: "(next_gen n ^^ k) (block n r c) = block n r c" for k
    using fp by (rule funpow_fixed)
  have 2: "step n (block n r c, bw) = Some (block n r c, block n r c)" if "wf_grid n bw" for bw
    using step_wf [OF w that] fp by simp
  have 3: "\<exists>s'. loop_board s = Some s' \<and> board s' = block n r c"
    if "sq s = n \<and> board s = block n r c \<and> wf_grid n (board_w s)" for s
  proof -
    from that have h: "wf_grid (sq s) (board s)" "binary (board s)" "wf_grid (sq s) (board_w s)"
      using w b by simp_all
    from loop_gens_wf [OF h, of "g s" 0]
    obtain s' where "loop_gens (g s) 0 s = Some s'"
      "board s' = (next_gen (sq s) ^^ nat (g s - 0)) (board s)"
      by (elim exE conjE)
    then show ?thesis using that 1 by (simp add: loop_board_def)
  qed
  show ?thesis using 1 2 3 by blast
qed


theorem C7_block_still_life_witness:
  "(4::int) \<le> 4 \<and> (0::int) \<le> 3 \<and> (3::int) < 4 \<and>
   (next_gen 4 ^^ 5) (block 4 3 3) = block 4 3 3 \<and>
   wf_grid 4 (replicate 4 (replicate 4 0)) \<and>
   step 4 (block 4 3 3, replicate 4 (replicate 4 0)) = Some (block 4 3 3, block 4 3 3) \<and>
   sq ((start '''')\<lparr>sq := 4, g := 7, board := block 4 3 3, board_w := replicate 4 (replicate 4 0)\<rparr>) = 4 \<and>
   (\<exists>s'. loop_board ((start '''')\<lparr>sq := 4, g := 7, board := block 4 3 3,
                          board_w := replicate 4 (replicate 4 0)\<rparr>) = Some s' \<and>
         board s' = block 4 3 3)"
proof -
  have h: "(4::int) \<le> 4" "(0::int) \<le> 3" "(3::int) < 4" by simp_all
  note t = C7_block_still_life [OF h(1) h(2) h(3) h(2) h(3)]
  define s where "s = (start '''')\<lparr>sq := 4, g := 7, board := block 4 3 3, board_w := replicate 4 (replicate 4 0)\<rparr>"
  have w: "wf_grid 4 (replicate 4 (replicate 4 0))" by (simp add: wf_grid_def)
  have 1: "(next_gen 4 ^^ 5) (block 4 3 3) = block 4 3 3"
    by (rule t [THEN conjunct1, rule_format])
  have 2: "step 4 (block 4 3 3, replicate 4 (replicate 4 0)) = Some (block 4 3 3, block 4 3 3)"
    by (rule t [THEN conjunct2, THEN conjunct1, rule_format, OF w])
  have q: "sq s = 4" "board s = block 4 3 3" "board_w s = replicate 4 (replicate 4 0)"
    by (simp_all add: s_def)
  have "sq s = 4 \<and> board s = block 4 3 3 \<and> wf_grid 4 (board_w s)"
    unfolding q using w by simp
  then have 3: "\<exists>s'. loop_board s = Some s' \<and> board s' = block 4 3 3"
    by (rule t [THEN conjunct2, THEN conjunct2, rule_format])
  have "(4::int) \<le> 4 \<and> (0::int) \<le> 3 \<and> (3::int) < 4 \<and>
    (next_gen 4 ^^ 5) (block 4 3 3) = block 4 3 3 \<and> wf_grid 4 (replicate 4 (replicate 4 0)) \<and>
    step 4 (block 4 3 3, replicate 4 (replicate 4 0)) = Some (block 4 3 3, block 4 3 3) \<and>
    sq s = 4 \<and> (\<exists>s'. loop_board s = Some s' \<and> board s' = block 4 3 3)"
    using h w 1 2 q(1) 3 by (intro conjI)
  then show ?thesis unfolding s_def .
qed

end
